theory Spec2Isabelle
  imports Main "HOL-Library.Word"
begin

unbundle bit_operations_syntax

section \<open>The cache simulator \<open>csim.c\<close>\<close>

text \<open>
  A shallow embedding of \<open>csim.c\<close>: the address decoding (\<open>findTag\<close>, \<open>findSet\<close>), the
  scan of one set (\<open>surveySet\<close>), one trace operation (\<open>cacheSim\<close>) and the replay loop of
  \<open>main\<close>.

  How the C types are read:
  \<^item> \<open>long\<close> addresses, tags and set numbers are \<open>64 word\<close>; the \<open>int\<close> values that
    \<open>findTag\<close> and \<open>findSet\<close> shift are \<open>32 word\<close>;
  \<^item> the three \<open>int\<close> counters of \<open>struct cachestats\<close> are integers in the range of
    \<open>int\<close>; adding 1 to \<open>INT_MAX\<close> is undefined in C (see below);
  \<^item> \<open>recent\<close>, \<open>freq\<close> and the clock are \<open>long\<close> values that grow by at most two per trace
    line, so they stay far below \<open>2^63\<close>; the model reads them as unbounded integers;
  \<^item> a read or write outside an array is undefined in C, and the model stops with \<open>None\<close>:
    outside a line array, outside the array of sets, and outside the buffer \<open>result\<close> into
    which \<open>surveySet\<close> copies its annotation with \<open>strcpy\<close>.
  Parsing of the command line and of the trace text and the verbose printing are not
  modelled: a trace is the list of its lines as \<open>sscanf\<close> has read them, and the annotations
  are returned in the order in which they would be printed.

  Two operations that C leaves undefined have a fixed outcome in the compiled program: a
  shift by a count outside the width of its operand, and the increment of an \<open>int\<close> that
  holds \<open>INT_MAX\<close>. The model is read in two ways. \<open>Strict\<close> keeps both undefined
  (\<open>None\<close>). \<open>Masked\<close> is the program as compiled for x86-64 and AArch64: the shift count
  is taken modulo the operand width and the increment wraps to \<open>INT_MIN\<close>.
\<close>

subsection \<open>Data\<close>

definition LRU :: int where "LRU = 0"
definition LFU :: int where "LFU = 1"

definition INT_MAX :: int where "INT_MAX = 2147483647"

record arguments =
  sbits :: int
  perset :: int
  bbits :: int
  policy :: int

record cachestats =
  miss_count :: int
  hit_count :: int
  eviction_count :: int

record cLine =
  valid :: int
  tag :: "64 word"
  recent :: int
  freq :: int

datatype reading = Strict | Masked

text \<open>\<open>counter += 1\<close> on a C \<open>int\<close>.\<close>

definition incr :: "reading \<Rightarrow> int \<Rightarrow> int option" where
  "incr r c =
     (if c < INT_MAX then Some (c + 1)
      else case r of Strict \<Rightarrow> None | Masked \<Rightarrow> Some (- INT_MAX - 1))"

text \<open>
  \<open>strcpy\<close> into a buffer of \<open>cap\<close> bytes: the characters of the string and the
  terminating NUL are written, so the string must be shorter than the buffer.
\<close>

definition strcpy :: "nat \<Rightarrow> string \<Rightarrow> string option" where
  "strcpy cap s = (if length s < cap then Some s else None)"

subsection \<open>Shifts\<close>

text \<open>
  C leaves a shift undefined when the count is negative or not smaller than the width of
  the (promoted) left operand. \<open>Strict\<close> keeps it undefined (\<open>None\<close>); \<open>Masked\<close> is what
  the shift instructions of x86-64 and AArch64 compute, where the count is taken modulo
  the operand width. For a count within the width both agree: \<open><<\<close> is the
  two's-complement shift (also of a negative \<open>int\<close>, as GCC documents it) and \<open>>>\<close> of a
  \<open>long\<close> extends the sign.
\<close>

definition shl_int :: "reading \<Rightarrow> 32 word \<Rightarrow> int \<Rightarrow> 32 word option" where
  "shl_int r x n =
     (if 0 \<le> n \<and> n < 32 then Some (push_bit (nat n) x)
      else case r of Strict \<Rightarrow> None | Masked \<Rightarrow> Some (push_bit (nat (n mod 32)) x))"

definition sar_long :: "reading \<Rightarrow> 64 word \<Rightarrow> int \<Rightarrow> 64 word option" where
  "sar_long r x n =
     (if 0 \<le> n \<and> n < 64 then Some (signed_drop_bit (nat n) x)
      else case r of Strict \<Rightarrow> None | Masked \<Rightarrow> Some (signed_drop_bit (nat (n mod 64)) x))"

subsection \<open>Address decoding\<close>

text \<open>
  \<open>findTag\<close>: \<open>~0\<close> is an \<open>int\<close>, so \<open>(~0) << tbits\<close> is a 32-bit shift; its complement is
  converted to \<open>long\<close> (sign extension, \<open>scast\<close>) only when it is stored into \<open>mask\<close>.
\<close>

definition findTag :: "reading \<Rightarrow> 64 word \<Rightarrow> int \<Rightarrow> int \<Rightarrow> 64 word option" where
  "findTag r address s b =
     (let tbits = 64 - s - b in
      case shl_int r (NOT 0) tbits of
        None \<Rightarrow> None
      | Some sh \<Rightarrow>
          (let mask = (scast (NOT sh) :: 64 word) in
           case sar_long r address (s + b) of
             None \<Rightarrow> None
           | Some hi \<Rightarrow> Some (hi AND mask)))"

text \<open>\<open>findSet\<close>: the mask is an \<open>int\<close>, converted to \<open>long\<close> for the \<open>&\<close>.\<close>

definition findSet :: "reading \<Rightarrow> 64 word \<Rightarrow> int \<Rightarrow> int \<Rightarrow> 64 word option" where
  "findSet r address s b =
     (case shl_int r (NOT 0) s of
        None \<Rightarrow> None
      | Some sh \<Rightarrow>
          (let mask = (NOT sh :: 32 word) in
           case sar_long r address b of
             None \<Rightarrow> None
           | Some lo \<Rightarrow> Some (lo AND scast mask)))"

subsection \<open>The cache\<close>

definition singleLine :: cLine where
  "singleLine = \<lparr>valid = 0, tag = 0, recent = 0, freq = 0\<rparr>"

text \<open>\<open>buildCache\<close>: \<open>sets\<close> arrays of \<open>lines\<close> lines; a count that is not positive gives none.\<close>

definition buildCache :: "int \<Rightarrow> int \<Rightarrow> cLine list list" where
  "buildCache lines sets = replicate (nat sets) (replicate (nat lines) singleLine)"

definition sameTag :: "64 word \<Rightarrow> 64 word \<Rightarrow> int" where
  "sameTag tag1 tag2 = (if tag1 = tag2 then 1 else 0)"

subsection \<open>\<open>surveySet\<close>\<close>

text \<open>The variables of \<open>surveySet\<close> that the loop reads and writes.\<close>

record survey =
  singleSet :: "cLine list"
  stats :: cachestats
  stored :: int
  minLRU :: int
  minLFU :: int
  minLRUIndex :: nat
  minLFUIndex :: nat
  result :: string

text \<open>The three assignments to a line: on a hit, into an empty line, over a victim.\<close>

definition hit_line :: "int \<Rightarrow> cLine \<Rightarrow> cLine" where
  "hit_line clock l = l\<lparr>recent := clock, freq := freq l + 1\<rparr>"

definition fill_line :: "64 word \<Rightarrow> int \<Rightarrow> cLine \<Rightarrow> cLine" where
  "fill_line tg clock l = l\<lparr>valid := 1, tag := tg, recent := clock\<rparr>"

definition evict_line :: "64 word \<Rightarrow> int \<Rightarrow> cLine \<Rightarrow> cLine" where
  "evict_line tg clock l = l\<lparr>recent := clock, tag := tg, freq := 0\<rparr>"

text \<open>
  Lines 279 to 298: a valid line \<open>l\<close> at index \<open>i\<close> that holds another tag updates the two
  minima. The LRU minimum is updated first; the tie branch of the LFU minimum then
  compares with the updated \<open>minLRU\<close>.
\<close>

definition track :: "cLine \<Rightarrow> nat \<Rightarrow> survey \<Rightarrow> survey" where
  "track l i sv =
     (let sv1 = (if recent l < minLRU sv then sv\<lparr>minLRU := recent l, minLRUIndex := i\<rparr> else sv)
      in if freq l < minLFU sv1 then sv1\<lparr>minLFU := freq l, minLFUIndex := i\<rparr>
         else if freq l = minLFU sv1 then
           (if recent l < minLRU sv1 then sv1\<lparr>minLFUIndex := i\<rparr> else sv1)
         else sv1)"

text \<open>
  The \<open>while\<close> loop from index \<open>i\<close>; a \<open>break\<close> returns the variables as they are. \<open>cap\<close>
  is the size of the caller's buffer \<open>result\<close>.
\<close>

function survey_loop ::
  "reading \<Rightarrow> nat \<Rightarrow> int \<Rightarrow> 64 word \<Rightarrow> int \<Rightarrow> survey \<Rightarrow> nat \<Rightarrow> survey option" where
  "survey_loop r cap lines tg clock sv i =
     (if int i < lines then
        (if i < length (singleSet sv) then
           (let l = singleSet sv ! i in
            if valid l \<noteq> 0 then
              (if sameTag (tag l) tg \<noteq> 0 then
                 (case incr r (hit_count (stats sv)) of
                    None \<Rightarrow> None
                  | Some h \<Rightarrow>
                      (case strcpy cap ''hit '' of
                         None \<Rightarrow> None
                       | Some res \<Rightarrow>
                           Some (sv\<lparr>stats := (stats sv)\<lparr>hit_count := h\<rparr>,
                                    stored := 1,
                                    singleSet := (singleSet sv)[i := hit_line clock l],
                                    result := res\<rparr>)))
               else survey_loop r cap lines tg clock (track l i sv) (i + 1))
            else
              (case incr r (miss_count (stats sv)) of
                 None \<Rightarrow> None
               | Some m \<Rightarrow>
                   (case strcpy cap ''miss '' of
                      None \<Rightarrow> None
                    | Some res \<Rightarrow>
                        Some (sv\<lparr>singleSet := (singleSet sv)[i := fill_line tg clock l],
                                 stats := (stats sv)\<lparr>miss_count := m\<rparr>,
                                 stored := 1,
                                 result := res\<rparr>))))
         else None)
      else Some sv)"
  by pat_completeness auto
termination
  by (relation "measure (\<lambda>(r, cap, lines, tg, clock, sv, i). nat (lines - int i))") auto

declare survey_loop.simps [simp del]

definition init_survey :: "cLine list \<Rightarrow> cachestats \<Rightarrow> int \<Rightarrow> survey" where
  "init_survey set0 st clock =
     \<lparr>singleSet = set0, stats = st, stored = 0, minLRU = clock, minLFU = clock,
      minLRUIndex = 0, minLFUIndex = 0, result = []\<rparr>"

text \<open>The index of the victim, chosen by the policy; 0 for a policy that is neither.\<close>

definition finalIndex :: "int \<Rightarrow> survey \<Rightarrow> nat" where
  "finalIndex pol sv =
     (if pol = LRU then minLRUIndex sv else if pol = LFU then minLFUIndex sv else 0)"

text \<open>
  \<open>surveySet\<close> with a buffer \<open>result\<close> of \<open>cap\<close> bytes. An eviction overwrites the victim
  and counts before it copies its annotation, which with the NUL takes 7 bytes.
\<close>

definition surveySet ::
  "reading \<Rightarrow> nat \<Rightarrow> cLine list \<Rightarrow> cachestats \<Rightarrow> int \<Rightarrow> 64 word \<Rightarrow> int \<Rightarrow> int \<Rightarrow>
   (cLine list \<times> cachestats \<times> string) option" where
  "surveySet r cap set0 st lines tg clock pol =
     (case survey_loop r cap lines tg clock (init_survey set0 st clock) 0 of
        None \<Rightarrow> None
      | Some sv \<Rightarrow>
          if stored sv = 0 then
            (let v = finalIndex pol sv in
             if v < length (singleSet sv) then
               (case incr r (miss_count (stats sv)) of
                  None \<Rightarrow> None
                | Some m \<Rightarrow>
                    (case incr r (eviction_count (stats sv)) of
                       None \<Rightarrow> None
                     | Some e \<Rightarrow>
                         (case strcpy cap ''evict '' of
                            None \<Rightarrow> None
                          | Some res \<Rightarrow>
                              Some ((singleSet sv)[v := evict_line tg clock (singleSet sv ! v)],
                                    (stats sv)\<lparr>miss_count := m, eviction_count := e\<rparr>,
                                    res))))
             else None)
          else Some (singleSet sv, stats sv, result sv))"

subsection \<open>\<open>cacheSim\<close>\<close>

text \<open>
  One trace operation on the set \<open>cache[setNumber]\<close>; an \<open>M\<close> surveys the set a second time
  with the clock advanced. The annotations of the lookups are returned in order. The
  buffer that \<open>cacheSim\<close> hands to \<open>surveySet\<close> is its local \<open>char result[6]\<close>.
\<close>

definition cacheSim ::
  "reading \<Rightarrow> cLine list list \<Rightarrow> cachestats \<Rightarrow> 64 word \<Rightarrow> 64 word \<Rightarrow> int \<Rightarrow> int \<Rightarrow> char \<Rightarrow> int \<Rightarrow>
   (cLine list list \<times> cachestats \<times> string list) option" where
  "cacheSim r cache st tg setNumber lines clock operation pol =
     (if 0 \<le> sint setNumber \<and> nat (sint setNumber) < length cache then
        (let k = nat (sint setNumber) in
         case surveySet r 6 (cache ! k) st lines tg clock pol of
           None \<Rightarrow> None
         | Some (set1, st1, r1) \<Rightarrow>
             if operation = CHR ''M'' then
               (case surveySet r 6 set1 st1 lines tg (clock + 1) pol of
                  None \<Rightarrow> None
                | Some (set2, st2, r2) \<Rightarrow> Some (cache[k := set2], st2, [r1, r2]))
             else Some (cache[k := set1], st1, [r1]))
      else None)"

subsection \<open>The replay loop of \<open>main\<close>\<close>

text \<open>
  A line of the trace file: \<open>Access operation address\<close> is a line that starts with a space,
  with the operation and the address that \<open>sscanf\<close> read from it; \<open>Other\<close> is any other
  line, which the loop skips without advancing the clock.
\<close>

datatype trace_line = Other | Access char "64 word"

type_synonym replay = "cLine list list \<times> cachestats \<times> int \<times> string list"

fun main_loop :: "reading \<Rightarrow> arguments \<Rightarrow> replay \<Rightarrow> trace_line list \<Rightarrow> replay option" where
  "main_loop r args s [] = Some s"
| "main_loop r args s (Other # rest) = main_loop r args s rest"
| "main_loop r args (cache, st, clock, out) (Access operation address # rest) =
     (case findTag r address (sbits args) (bbits args) of
        None \<Rightarrow> None
      | Some tg \<Rightarrow>
          (case findSet r address (sbits args) (bbits args) of
             None \<Rightarrow> None
           | Some setNumber \<Rightarrow>
               (case cacheSim r cache st tg setNumber (perset args) (clock + 1) operation
                       (policy args) of
                  None \<Rightarrow> None
                | Some (cache', st', rs) \<Rightarrow>
                    main_loop r args (cache', st', clock + 1, out @ rs) rest)))"

definition fresh :: "int \<Rightarrow> int \<Rightarrow> replay" where
  "fresh lines sets = (buildCache lines sets, \<lparr>miss_count = 0, hit_count = 0, eviction_count = 0\<rparr>, 0, [])"

text \<open>\<open>main\<close>: \<open>1 << sbits\<close> sets, the replay, and the counters handed to \<open>printSummary\<close>.\<close>

definition main :: "reading \<Rightarrow> arguments \<Rightarrow> trace_line list \<Rightarrow> (cachestats \<times> string list) option" where
  "main r args trace =
     (case shl_int r 1 (sbits args) of
        None \<Rightarrow> None
      | Some sets \<Rightarrow>
          (case main_loop r args (fresh (perset args) (sint sets)) trace of
             None \<Rightarrow> None
           | Some (cache, st, clock, out) \<Rightarrow> Some (st, out)))"

subsection \<open>Notions used in the statements\<close>

text \<open>
  \<open>others tg xs i j\<close>: the lines \<open>i..<j\<close> of \<open>xs\<close> are valid and hold tags other than \<open>tg\<close>,
  so the loop passes over them. \<open>stops tg lines xs i j\<close>: started at \<open>i\<close>, the loop reaches
  the line \<open>j\<close>, which is inside the array and below \<open>lines\<close>.
\<close>

definition others :: "64 word \<Rightarrow> cLine list \<Rightarrow> nat \<Rightarrow> nat \<Rightarrow> bool" where
  "others tg xs i j = (\<forall>m\<in>{i..<j}. valid (xs ! m) \<noteq> 0 \<and> tag (xs ! m) \<noteq> tg)"

definition stops :: "64 word \<Rightarrow> int \<Rightarrow> cLine list \<Rightarrow> nat \<Rightarrow> nat \<Rightarrow> bool" where
  "stops tg lines xs i j = (i \<le> j \<and> int j < lines \<and> j < length xs \<and> others tg xs i j)"

text \<open>
  What the loop knows about the LRU minimum after the lines below \<open>i\<close>: if one of them was
  used before \<open>clock\<close>, \<open>minLRUIndex\<close> is the first line of least \<open>recent\<close>; otherwise the
  minimum still has its initial value.
\<close>

definition lru_inv :: "int \<Rightarrow> cLine list \<Rightarrow> nat \<Rightarrow> survey \<Rightarrow> bool" where
  "lru_inv clock xs i sv =
     (if \<exists>j<i. recent (xs ! j) < clock
      then minLRUIndex sv < i \<and> minLRU sv = recent (xs ! minLRUIndex sv) \<and> minLRU sv < clock \<and>
           (\<forall>j<i. minLRU sv \<le> recent (xs ! j)) \<and>
           (\<forall>j<minLRUIndex sv. minLRU sv < recent (xs ! j))
      else minLRU sv = clock \<and> minLRUIndex sv = 0)"

definition idx_inv :: "nat \<Rightarrow> survey \<Rightarrow> bool" where
  "idx_inv i sv = (minLRUIndex sv \<le> i - 1 \<and> minLFUIndex sv \<le> i - 1)"

text \<open>
  What holds of every set while \<open>main\<close> runs, \<open>c\<close> being the clock of the next lookup: a
  line that was never filled is as \<open>buildCache\<close> left it, the valid lines come first, and
  no line was used after \<open>c\<close>.
\<close>

definition set_ok :: "int \<Rightarrow> cLine list \<Rightarrow> bool" where
  "set_ok c xs =
     (\<forall>i\<in>{0..<length xs}.
        (valid (xs ! i) = 0 \<longrightarrow> xs ! i = singleLine) \<and>
        (valid (xs ! i) \<noteq> 0 \<longrightarrow> (\<forall>j\<in>{0..<i}. valid (xs ! j) \<noteq> 0)) \<and>
        recent (xs ! i) \<le> c)"

definition cache_ok :: "int \<Rightarrow> int \<Rightarrow> cLine list list \<Rightarrow> bool" where
  "cache_ok lines c cache = (\<forall>xs\<in>set cache. length xs = nat lines \<and> set_ok c xs)"

definition stats_ok :: "cachestats \<Rightarrow> bool" where
  "stats_ok st =
     (0 \<le> hit_count st \<and> 0 \<le> miss_count st \<and> 0 \<le> eviction_count st \<and>
      eviction_count st \<le> miss_count st)"

text \<open>The lookups that a trace asks for: two for an \<open>M\<close>, one for any other operation.\<close>

fun subaccesses :: "trace_line list \<Rightarrow> int" where
  "subaccesses [] = 0"
| "subaccesses (Other # rest) = subaccesses rest"
| "subaccesses (Access operation address # rest) =
     (if operation = CHR ''M'' then 2 else 1) + subaccesses rest"

text \<open>Every line that is valid in \<open>cache\<close> is valid in \<open>cache'\<close>, which has the same shape.\<close>

definition keeps_valid :: "cLine list list \<Rightarrow> cLine list list \<Rightarrow> bool" where
  "keeps_valid cache cache' =
     (length cache' = length cache \<and>
      (\<forall>k\<in>{0..<length cache}.
         length (cache' ! k) = length (cache ! k) \<and>
         (\<forall>i\<in>{0..<length (cache ! k)}. valid (cache ! k ! i) \<noteq> 0 \<longrightarrow> valid (cache' ! k ! i) \<noteq> 0)))"

definition valid_prefix :: "cLine list \<Rightarrow> bool" where
  "valid_prefix xs = (\<forall>i\<in>{0..<length xs}. valid (xs ! i) \<noteq> 0 \<longrightarrow> (\<forall>j\<in>{0..<i}. valid (xs ! j) \<noteq> 0))"

text \<open>
  A configuration for the examples: two sets of two lines under LRU. With
  \<open>sbits + bbits = 33\<close> every shift count of the address decoding lies within the width
  of its operand. The addresses \<open>0\<close>, \<open>0x200000000\<close> and \<open>0x400000000\<close> fall into set 0
  with the tags 0, 1 and 2.
\<close>

definition cfg :: arguments where
  "cfg = \<lparr>sbits = 1, perset = 2, bbits = 32, policy = LRU\<rparr>"

text \<open>
  The decomposition of an address as the specification words it: a logical shift and a
  mask of the low bits, both at 64 bits.
\<close>

definition tag_spec :: "64 word \<Rightarrow> nat \<Rightarrow> nat \<Rightarrow> 64 word" where
  "tag_spec address s b = drop_bit (s + b) address AND mask (64 - s - b)"

definition set_index_spec :: "64 word \<Rightarrow> nat \<Rightarrow> nat \<Rightarrow> 64 word" where
  "set_index_spec address s b = drop_bit b address AND mask s"

section \<open>The scan of one set\<close>

lemma track_keeps [simp]:
  "singleSet (track l i sv) = singleSet sv"
  "stats (track l i sv) = stats sv"
  "stored (track l i sv) = stored sv"
  "result (track l i sv) = result sv"
  by (simp_all add: track_def Let_def)

lemma others_refl [simp]: "others tg xs i i"
  by (simp add: others_def)

lemma others_step:
  "i < j \<Longrightarrow> others tg xs i j \<longleftrightarrow> valid (xs ! i) \<noteq> 0 \<and> tag (xs ! i) \<noteq> tg \<and> others tg xs (Suc i) j"
proof -
  assume "i < j"
  then have "{i..<j} = insert i {Suc i..<j}" by auto
  then show ?thesis by (simp add: others_def)
qed

lemma others_snoc:
  "i \<le> j \<Longrightarrow> others tg xs i (Suc j) \<longleftrightarrow> others tg xs i j \<and> valid (xs ! j) \<noteq> 0 \<and> tag (xs ! j) \<noteq> tg"
  unfolding others_def
  by (auto simp: less_Suc_eq)

lemma stops_here: "int i < lines \<Longrightarrow> i < length xs \<Longrightarrow> stops tg lines xs i i"
  by (simp add: stops_def)

lemma stops_later:
  "stops tg lines xs (Suc i) j \<Longrightarrow> valid (xs ! i) \<noteq> 0 \<Longrightarrow> tag (xs ! i) \<noteq> tg \<Longrightarrow> stops tg lines xs i j"
  by (auto simp: stops_def others_step [of i j])

lemma loop_next:
  "int i < lines \<Longrightarrow> i < length (singleSet sv) \<Longrightarrow> valid (singleSet sv ! i) \<noteq> 0 \<Longrightarrow>
   tag (singleSet sv ! i) \<noteq> tg \<Longrightarrow>
   survey_loop r cap lines tg clock sv i =
   survey_loop r cap lines tg clock (track (singleSet sv ! i) i sv) (Suc i)"
  by (subst survey_loop.simps) (simp add: sameTag_def)

lemma loop_hit_here:
  "int i < lines \<Longrightarrow> i < length (singleSet sv) \<Longrightarrow> valid (singleSet sv ! i) \<noteq> 0 \<Longrightarrow>
   tag (singleSet sv ! i) = tg \<Longrightarrow>
   survey_loop r cap lines tg clock sv i =
   (case incr r (hit_count (stats sv)) of
      None \<Rightarrow> None
    | Some h \<Rightarrow>
        if 4 < cap
        then Some (sv\<lparr>stats := (stats sv)\<lparr>hit_count := h\<rparr>, stored := 1,
                      singleSet := (singleSet sv)[i := hit_line clock (singleSet sv ! i)],
                      result := ''hit ''\<rparr>)
        else None)"
  by (subst survey_loop.simps) (simp add: sameTag_def strcpy_def split: option.splits)

lemma loop_fill_here:
  "int i < lines \<Longrightarrow> i < length (singleSet sv) \<Longrightarrow> valid (singleSet sv ! i) = 0 \<Longrightarrow>
   survey_loop r cap lines tg clock sv i =
   (case incr r (miss_count (stats sv)) of
      None \<Rightarrow> None
    | Some m \<Rightarrow>
        if 5 < cap
        then Some (sv\<lparr>singleSet := (singleSet sv)[i := fill_line tg clock (singleSet sv ! i)],
                      stats := (stats sv)\<lparr>miss_count := m\<rparr>, stored := 1,
                      result := ''miss ''\<rparr>)
        else None)"
  by (subst survey_loop.simps) (simp add: strcpy_def split: option.splits)

lemma loop_done: "\<not> int i < lines \<Longrightarrow> survey_loop r cap lines tg clock sv i = Some sv"
  by (subst survey_loop.simps) simp

lemma loop_back:
  "survey_loop r cap lines tg clock sv i = Some sv' \<Longrightarrow>
   (\<exists>j h. stops tg lines (singleSet sv) i j \<and>
        valid (singleSet sv ! j) \<noteq> 0 \<and> tag (singleSet sv ! j) = tg \<and>
        incr r (hit_count (stats sv)) = Some h \<and> 4 < cap \<and>
        singleSet sv' = (singleSet sv)[j := hit_line clock (singleSet sv ! j)] \<and>
        stats sv' = (stats sv)\<lparr>hit_count := h\<rparr> \<and>
        stored sv' = 1 \<and> result sv' = ''hit '') \<or>
   (\<exists>j m. stops tg lines (singleSet sv) i j \<and>
        valid (singleSet sv ! j) = 0 \<and>
        incr r (miss_count (stats sv)) = Some m \<and> 5 < cap \<and>
        singleSet sv' = (singleSet sv)[j := fill_line tg clock (singleSet sv ! j)] \<and>
        stats sv' = (stats sv)\<lparr>miss_count := m\<rparr> \<and>
        stored sv' = 1 \<and> result sv' = ''miss '') \<or>
   ((int i < lines \<longrightarrow> lines \<le> int (length (singleSet sv))) \<and>
        others tg (singleSet sv) i (nat lines) \<and>
        singleSet sv' = singleSet sv \<and> stats sv' = stats sv \<and> stored sv' = stored sv \<and>
        result sv' = result sv)"
proof (induction "nat lines - i" arbitrary: i sv)
  case 0
  then have fin: "\<not> int i < lines" by simp
  with "0.prems" have "sv' = sv" by (simp add: loop_done)
  moreover have "others tg (singleSet sv) i (nat lines)"
    using fin by (simp add: others_def)
  ultimately show ?case using fin by simp
next
  case (Suc k)
  then have lt: "int i < lines" by simp
  have len: "i < length (singleSet sv)"
    using Suc.prems lt by (subst (asm) survey_loop.simps) (simp split: if_splits)
  let ?l = "singleSet sv ! i"
  show ?case
  proof (cases "valid ?l \<noteq> 0")
    case v: True
    show ?thesis
    proof (cases "tag ?l = tg")
      case True
      with v lt len Suc.prems obtain h where
        h: "incr r (hit_count (stats sv)) = Some h" "4 < cap"
        and sv': "sv' = sv\<lparr>stats := (stats sv)\<lparr>hit_count := h\<rparr>, stored := 1,
                    singleSet := (singleSet sv)[i := hit_line clock ?l],
                    result := ''hit ''\<rparr>"
        by (auto simp: loop_hit_here split: option.splits if_splits)
      have "stops tg lines (singleSet sv) i i" using lt len by (rule stops_here)
      with True v h sv' show ?thesis
        by (intro disjI1 exI [of _ i] exI [of _ h]) simp
    next
      case False
      have rec: "survey_loop r cap lines tg clock (track ?l i sv) (Suc i) = Some sv'"
        using Suc.prems loop_next [OF lt len v False, of r cap clock] by simp
      have k: "k = nat lines - Suc i" using Suc.hyps(2) by simp
      note IH = Suc.hyps(1) [OF k rec, simplified]
      have later: "stops tg lines (singleSet sv) i j" if "stops tg lines (singleSet sv) (Suc i) j" for j
        using stops_later [OF that] v False by simp
      have oth: "others tg (singleSet sv) i (nat lines)" if "others tg (singleSet sv) (Suc i) (nat lines)"
        using others_step [of i "nat lines" tg "singleSet sv"] v False lt that by simp
      from IH show ?thesis
      proof (elim disjE exE conjE)
        fix j h
        assume "stops tg lines (singleSet sv) (Suc i) j" "valid (singleSet sv ! j) \<noteq> 0"
          "tag (singleSet sv ! j) = tg" "incr r (hit_count (stats sv)) = Some h" "4 < cap"
          "singleSet sv' = (singleSet sv)[j := hit_line clock (singleSet sv ! j)]"
          "stats sv' = (stats sv)\<lparr>hit_count := h\<rparr>" "stored sv' = 1" "result sv' = ''hit ''"
        then show ?thesis
          using later [of j] by (intro disjI1 exI [of _ j] exI [of _ h]) simp
      next
        fix j m
        assume "stops tg lines (singleSet sv) (Suc i) j" "valid (singleSet sv ! j) = 0"
          "incr r (miss_count (stats sv)) = Some m" "5 < cap"
          "singleSet sv' = (singleSet sv)[j := fill_line tg clock (singleSet sv ! j)]"
          "stats sv' = (stats sv)\<lparr>miss_count := m\<rparr>" "stored sv' = 1" "result sv' = ''miss ''"
        then show ?thesis
          using later [of j] by (intro disjI2 disjI1 exI [of _ j] exI [of _ m]) simp
      next
        assume "1 + int i < lines \<longrightarrow> lines \<le> int (length (singleSet sv))"
          "others tg (singleSet sv) (Suc i) (nat lines)"
          "singleSet sv' = singleSet sv" "stats sv' = stats sv" "stored sv' = stored sv"
          "result sv' = result sv"
        then show ?thesis
          using oth len lt by (intro disjI2) auto
      qed
    qed
  next
    case False
    with lt len Suc.prems obtain m where
      m: "incr r (miss_count (stats sv)) = Some m" "5 < cap"
      and sv': "sv' = sv\<lparr>singleSet := (singleSet sv)[i := fill_line tg clock ?l],
                  stats := (stats sv)\<lparr>miss_count := m\<rparr>, stored := 1,
                  result := ''miss ''\<rparr>"
      by (auto simp: loop_fill_here split: option.splits if_splits)
    have "stops tg lines (singleSet sv) i i" using lt len by (rule stops_here)
    with False m sv' show ?thesis
      by (intro disjI2 disjI1 exI [of _ i] exI [of _ m]) simp
  qed
qed

lemma stops_step:
  "stops tg lines xs i j \<Longrightarrow> i < j \<Longrightarrow>
   int i < lines \<and> i < length xs \<and> valid (xs ! i) \<noteq> 0 \<and> tag (xs ! i) \<noteq> tg \<and>
   stops tg lines xs (Suc i) j"
  by (auto simp: stops_def others_step [of i j])

lemma loop_hit:
  assumes "stops tg lines (singleSet sv) i j"
    and "valid (singleSet sv ! j) \<noteq> 0" and "tag (singleSet sv ! j) = tg"
    and "incr r (hit_count (stats sv)) = Some h" and "4 < cap"
  shows "\<exists>sv'. survey_loop r cap lines tg clock sv i = Some sv' \<and>
           singleSet sv' = (singleSet sv)[j := hit_line clock (singleSet sv ! j)] \<and>
           stats sv' = (stats sv)\<lparr>hit_count := h\<rparr> \<and>
           stored sv' = 1 \<and> result sv' = ''hit ''"
  using assms
proof (induction "j - i" arbitrary: i sv)
  case 0
  then have "i = j" and "int i < lines" and "i < length (singleSet sv)"
    by (simp_all add: stops_def)
  with 0 show ?case
    by (simp add: loop_hit_here)
next
  case (Suc k)
  then have "i < j" by simp
  from stops_step [OF Suc.prems(1) this]
  have here: "int i < lines" "i < length (singleSet sv)" "valid (singleSet sv ! i) \<noteq> 0"
      "tag (singleSet sv ! i) \<noteq> tg"
    and rest: "stops tg lines (singleSet sv) (Suc i) j"
    by simp_all
  have "k = j - Suc i" using Suc.hyps(2) by simp
  from Suc.hyps(1) [OF this, of "track (singleSet sv ! i) i sv"] rest Suc.prems
  show ?case by (simp add: loop_next [OF here])
qed

lemma loop_fill:
  assumes "stops tg lines (singleSet sv) i j"
    and "valid (singleSet sv ! j) = 0"
    and "incr r (miss_count (stats sv)) = Some m" and "5 < cap"
  shows "\<exists>sv'. survey_loop r cap lines tg clock sv i = Some sv' \<and>
           singleSet sv' = (singleSet sv)[j := fill_line tg clock (singleSet sv ! j)] \<and>
           stats sv' = (stats sv)\<lparr>miss_count := m\<rparr> \<and>
           stored sv' = 1 \<and> result sv' = ''miss ''"
  using assms
proof (induction "j - i" arbitrary: i sv)
  case 0
  then have "i = j" and "int i < lines" and "i < length (singleSet sv)"
    by (simp_all add: stops_def)
  with 0 show ?case
    by (simp add: loop_fill_here)
next
  case (Suc k)
  then have "i < j" by simp
  from stops_step [OF Suc.prems(1) this]
  have here: "int i < lines" "i < length (singleSet sv)" "valid (singleSet sv ! i) \<noteq> 0"
      "tag (singleSet sv ! i) \<noteq> tg"
    and rest: "stops tg lines (singleSet sv) (Suc i) j"
    by simp_all
  have "k = j - Suc i" using Suc.hyps(2) by simp
  from Suc.hyps(1) [OF this, of "track (singleSet sv ! i) i sv"] rest Suc.prems
  show ?case by (simp add: loop_next [OF here])
qed

lemma loop_full:
  assumes "others tg (singleSet sv) i (nat lines)"
    and "lines \<le> int (length (singleSet sv))"
  shows "\<exists>sv'. survey_loop r cap lines tg clock sv i = Some sv' \<and>
           singleSet sv' = singleSet sv \<and> stats sv' = stats sv \<and>
           stored sv' = stored sv \<and> result sv' = result sv"
  using assms
proof (induction "nat lines - i" arbitrary: i sv)
  case 0
  then have "\<not> int i < lines" by simp
  then show ?case by (simp add: loop_done)
next
  case (Suc k)
  then have lt: "i < nat lines" by simp
  then have here: "int i < lines" "i < length (singleSet sv)" "valid (singleSet sv ! i) \<noteq> 0"
      "tag (singleSet sv ! i) \<noteq> tg"
    using Suc.prems others_step [OF lt, of tg "singleSet sv"] by auto
  have rest: "others tg (singleSet sv) (Suc i) (nat lines)"
    using Suc.prems others_step [OF lt, of tg "singleSet sv"] by simp
  have "k = nat lines - Suc i" using Suc.hyps(2) by simp
  from Suc.hyps(1) [OF this, of "track (singleSet sv ! i) i sv"] rest Suc.prems
  show ?case by (simp add: loop_next [OF here])
qed

lemma loop_full_inv:
  assumes "survey_loop r cap lines tg clock sv i = Some sv'"
    and "stored sv = 0" and "stored sv' = 0"
    and "P i sv"
    and step: "\<And>i sv. int i < lines \<Longrightarrow> i < length (singleSet sv) \<Longrightarrow>
                 valid (singleSet sv ! i) \<noteq> 0 \<Longrightarrow> tag (singleSet sv ! i) \<noteq> tg \<Longrightarrow>
                 P i sv \<Longrightarrow> P (Suc i) (track (singleSet sv ! i) i sv)"
  shows "P (max i (nat lines)) sv'"
  using assms(1-4)
proof (induction "nat lines - i" arbitrary: i sv)
  case 0
  then have "\<not> int i < lines" and "max i (nat lines) = i" by simp_all
  with 0 show ?case by (simp add: loop_done)
next
  case (Suc k)
  then have lt: "int i < lines" by simp
  have len: "i < length (singleSet sv)"
    using Suc.prems(1) lt by (subst (asm) survey_loop.simps) (simp split: if_splits)
  have v: "valid (singleSet sv ! i) \<noteq> 0"
  proof
    assume "valid (singleSet sv ! i) = 0"
    with Suc.prems(1,3) lt len show False
      by (auto simp: loop_fill_here split: option.splits if_splits)
  qed
  have t: "tag (singleSet sv ! i) \<noteq> tg"
  proof
    assume "tag (singleSet sv ! i) = tg"
    with Suc.prems(1,3) lt len v show False
      by (auto simp: loop_hit_here split: option.splits if_splits)
  qed
  have k: "k = nat lines - Suc i" using Suc.hyps(2) by simp
  have "P (max (Suc i) (nat lines)) sv'"
    using Suc.hyps(1) [OF k, of "track (singleSet sv ! i) i sv"] Suc.prems
      step [OF lt len v t] loop_next [OF lt len v t, of r cap clock]
    by simp
  moreover have "max (Suc i) (nat lines) = max i (nat lines)" using lt by simp
  ultimately show ?case by simp
qed

lemma track_lru:
  "minLRU (track l i sv) = (if recent l < minLRU sv then recent l else minLRU sv)"
  "minLRUIndex (track l i sv) = (if recent l < minLRU sv then i else minLRUIndex sv)"
  by (simp_all add: track_def Let_def)

lemma lru_inv_step:
  assumes "lru_inv clock xs i sv"
  shows "lru_inv clock xs (Suc i) (track (xs ! i) i sv)"
proof (cases "\<exists>j<i. recent (xs ! j) < clock")
  case True
  with assms have "minLRUIndex sv < i \<and> minLRU sv = recent (xs ! minLRUIndex sv) \<and>
    minLRU sv < clock \<and> (\<forall>j<i. minLRU sv \<le> recent (xs ! j)) \<and>
    (\<forall>j<minLRUIndex sv. minLRU sv < recent (xs ! j))"
    by (auto simp: lru_inv_def)
  then have a: "minLRUIndex sv < i" "minLRU sv = recent (xs ! minLRUIndex sv)"
    "minLRU sv < clock" "\<forall>j<i. minLRU sv \<le> recent (xs ! j)"
    "\<forall>j<minLRUIndex sv. minLRU sv < recent (xs ! j)"
    by blast+
  from True have ex: "\<exists>j<Suc i. recent (xs ! j) < clock" using less_Suc_eq by auto
  show ?thesis
    unfolding lru_inv_def using a ex
    by (auto simp: track_lru less_Suc_eq)
next
  case False
  with assms have a: "minLRU sv = clock" "minLRUIndex sv = 0"
    by (simp_all add: lru_inv_def)
  from False have ge: "\<forall>j<i. clock \<le> recent (xs ! j)" by (meson not_less)
  show ?thesis
  proof (cases "recent (xs ! i) < clock")
    case True
    then have ex: "\<exists>j<Suc i. recent (xs ! j) < clock" by auto
    show ?thesis
      unfolding lru_inv_def using a ex ge True
      by (auto simp: track_lru less_Suc_eq)
  next
    case r: False
    with False have nex: "\<not> (\<exists>j<Suc i. recent (xs ! j) < clock)"
      by (auto simp: less_Suc_eq)
    show ?thesis
      unfolding lru_inv_def using a nex r
      by (simp add: track_lru)
  qed
qed

lemma loop_lru:
  assumes "survey_loop r cap lines tg clock (init_survey xs st clock) 0 = Some sv"
    and "stored sv = 0"
  shows "lru_inv clock xs (nat lines) sv"
proof -
  have "lru_inv clock (singleSet sv) (max 0 (nat lines)) sv"
  proof (rule loop_full_inv [where P = "\<lambda>i sv. lru_inv clock (singleSet sv) i sv", OF assms(1) _ assms(2)])
    show "stored (init_survey xs st clock) = 0" by (simp add: init_survey_def)
    show "lru_inv clock (singleSet (init_survey xs st clock)) 0 (init_survey xs st clock)"
      by (simp add: lru_inv_def init_survey_def)
  next
    fix i sv
    assume "lru_inv clock (singleSet sv) i sv"
    then show "lru_inv clock (singleSet (track (singleSet sv ! i) i sv)) (Suc i) (track (singleSet sv ! i) i sv)"
      using lru_inv_step by simp
  qed
  moreover have "singleSet sv = xs"
    using loop_back [OF assms(1)] assms(2) by (auto simp: init_survey_def)
  ultimately show ?thesis by simp
qed

lemma idx_inv_step: "idx_inv i sv \<Longrightarrow> idx_inv (Suc i) (track l i sv)"
  by (auto simp: idx_inv_def track_def Let_def)

lemma loop_idx:
  assumes "survey_loop r cap lines tg clock (init_survey xs st clock) 0 = Some sv"
    and "stored sv = 0"
  shows "finalIndex pol sv \<le> nat lines - 1"
proof -
  have "idx_inv (max 0 (nat lines)) sv"
  proof (rule loop_full_inv [where P = idx_inv, OF assms(1) _ assms(2)])
    show "stored (init_survey xs st clock) = 0" by (simp add: init_survey_def)
    show "idx_inv 0 (init_survey xs st clock)"
      by (simp add: idx_inv_def init_survey_def)
  qed (rule idx_inv_step)
  then show ?thesis by (simp add: idx_inv_def finalIndex_def)
qed

lemma incr_Some: "c < INT_MAX \<Longrightarrow> incr r c = Some (c + 1)"
  by (simp add: incr_def)

lemma incr_SomeD: "incr r c = Some h \<Longrightarrow> c < INT_MAX \<Longrightarrow> h = c + 1"
  by (simp add: incr_def)

lemma incr_Strict: "incr Strict c = Some h \<longleftrightarrow> c < INT_MAX \<and> h = c + 1"
  by (auto simp: incr_def)

lemma incr_wraps: "incr Masked INT_MAX = Some (- INT_MAX - 1)" "incr Strict INT_MAX = None"
  by (simp_all add: incr_def)

lemma surveySet_cases:
  assumes "surveySet r cap xs st lines tg clock pol = Some (xs', st', res)"
  obtains
    (hit) j h where "stops tg lines xs 0 j" "valid (xs ! j) \<noteq> 0" "tag (xs ! j) = tg"
      "incr r (hit_count st) = Some h" "4 < cap" "xs' = xs[j := hit_line clock (xs ! j)]"
      "st' = st\<lparr>hit_count := h\<rparr>" "res = ''hit ''"
  | (fill) j m where "stops tg lines xs 0 j" "valid (xs ! j) = 0"
      "incr r (miss_count st) = Some m" "5 < cap" "xs' = xs[j := fill_line tg clock (xs ! j)]"
      "st' = st\<lparr>miss_count := m\<rparr>" "res = ''miss ''"
  | (evict) sv m e where "survey_loop r cap lines tg clock (init_survey xs st clock) 0 = Some sv"
      "stored sv = 0" "others tg xs 0 (nat lines)" "lines \<le> int (length xs)"
      "finalIndex pol sv < length xs" "finalIndex pol sv \<le> nat lines - 1"
      "incr r (miss_count st) = Some m" "incr r (eviction_count st) = Some e" "6 < cap"
      "xs' = xs[finalIndex pol sv := evict_line tg clock (xs ! finalIndex pol sv)]"
      "st' = st\<lparr>miss_count := m, eviction_count := e\<rparr>"
      "res = ''evict ''"
proof -
  from assms obtain sv where
    loop: "survey_loop r cap lines tg clock (init_survey xs st clock) 0 = Some sv"
    by (auto simp: surveySet_def split: option.splits)
  have init [simp]: "singleSet (init_survey xs st clock) = xs" "stats (init_survey xs st clock) = st"
    "stored (init_survey xs st clock) = 0"
    by (simp_all add: init_survey_def)
  from loop_back [OF loop]
  consider
    (h) j h where "stops tg lines xs 0 j" "valid (xs ! j) \<noteq> 0" "tag (xs ! j) = tg"
      "incr r (hit_count st) = Some h" "4 < cap" "singleSet sv = xs[j := hit_line clock (xs ! j)]"
      "stats sv = st\<lparr>hit_count := h\<rparr>" "stored sv = 1" "result sv = ''hit ''"
  | (f) j m where "stops tg lines xs 0 j" "valid (xs ! j) = 0"
      "incr r (miss_count st) = Some m" "5 < cap" "singleSet sv = xs[j := fill_line tg clock (xs ! j)]"
      "stats sv = st\<lparr>miss_count := m\<rparr>" "stored sv = 1" "result sv = ''miss ''"
  | (e) "0 < lines \<longrightarrow> lines \<le> int (length xs)" "others tg xs 0 (nat lines)"
      "singleSet sv = xs" "stats sv = st" "stored sv = 0"
    by auto
  then show thesis
  proof cases
    case h
    with assms loop show thesis
      by (intro hit [of j h]) (simp_all add: surveySet_def)
  next
    case f
    with assms loop show thesis
      by (intro fill [of j m]) (simp_all add: surveySet_def)
  next
    case e
    from assms loop e have v: "finalIndex pol sv < length xs"
      by (simp add: surveySet_def Let_def split: if_splits)
    with e(1) have len: "lines \<le> int (length xs)" by linarith
    have idx: "finalIndex pol sv \<le> nat lines - 1"
      by (rule loop_idx [OF loop e(5)])
    from assms loop e v obtain m e' where
      "incr r (miss_count st) = Some m" "incr r (eviction_count st) = Some e'" "6 < cap"
      "xs' = xs[finalIndex pol sv := evict_line tg clock (xs ! finalIndex pol sv)]"
      "st' = st\<lparr>miss_count := m, eviction_count := e'\<rparr>" "res = ''evict ''"
      by (auto simp: surveySet_def Let_def strcpy_def split: if_splits option.splits)
    with loop e v idx len show thesis
      by (intro evict [of sv m e']) simp_all
  qed
qed

lemma loop_hit_none:
  assumes "stops tg lines (singleSet sv) i j"
    and "valid (singleSet sv ! j) \<noteq> 0" and "tag (singleSet sv ! j) = tg"
    and "incr r (hit_count (stats sv)) = None \<or> \<not> 4 < cap"
  shows "survey_loop r cap lines tg clock sv i = None"
  using assms
proof (induction "j - i" arbitrary: i sv)
  case 0
  then have "i = j" and "int i < lines" and "i < length (singleSet sv)"
    by (simp_all add: stops_def)
  with 0 show ?case
    by (auto simp: loop_hit_here split: option.splits)
next
  case (Suc k)
  then have "i < j" by simp
  from stops_step [OF Suc.prems(1) this]
  have here: "int i < lines" "i < length (singleSet sv)" "valid (singleSet sv ! i) \<noteq> 0"
      "tag (singleSet sv ! i) \<noteq> tg"
    and rest: "stops tg lines (singleSet sv) (Suc i) j"
    by simp_all
  have "k = j - Suc i" using Suc.hyps(2) by simp
  from Suc.hyps(1) [OF this, of "track (singleSet sv ! i) i sv"] rest Suc.prems
  show ?case by (simp add: loop_next [OF here])
qed

text \<open>What a lookup returns, by the first line at which the loop stops.\<close>

lemma surveySet_hit:
  assumes "stops tg lines xs 0 j" "valid (xs ! j) \<noteq> 0" "tag (xs ! j) = tg"
  shows "surveySet r cap xs st lines tg clock pol =
         (case incr r (hit_count st) of
            None \<Rightarrow> None
          | Some h \<Rightarrow>
              if 4 < cap
              then Some (xs[j := hit_line clock (xs ! j)], st\<lparr>hit_count := h\<rparr>, ''hit '')
              else None)"
proof (cases "incr r (hit_count st) = None \<or> \<not> 4 < cap")
  case True
  with loop_hit_none [of tg lines "init_survey xs st clock" 0 j r cap clock] assms
  show ?thesis
    by (auto simp: surveySet_def init_survey_def split: option.splits)
next
  case False
  then obtain h where h: "incr r (hit_count st) = Some h" "4 < cap" by auto
  with loop_hit [of tg lines "init_survey xs st clock" 0 j r h cap clock] assms
  show ?thesis
    by (auto simp: surveySet_def init_survey_def)
qed

lemma surveySet_fill:
  assumes "stops tg lines xs 0 j" "valid (xs ! j) = 0"
    and "incr r (miss_count st) = Some m" "5 < cap"
  shows "surveySet r cap xs st lines tg clock pol =
         Some (xs[j := fill_line tg clock (xs ! j)], st\<lparr>miss_count := m\<rparr>, ''miss '')"
  using loop_fill [of tg lines "init_survey xs st clock" 0 j r m cap clock] assms
  by (auto simp: surveySet_def init_survey_def)

lemma surveySet_evict:
  assumes "others tg xs 0 (nat lines)" "lines \<le> int (length xs)" "1 \<le> lines"
  shows "\<exists>sv. survey_loop r cap lines tg clock (init_survey xs st clock) 0 = Some sv \<and> stored sv = 0 \<and>
           finalIndex pol sv < nat lines \<and>
           surveySet r cap xs st lines tg clock pol =
           (case incr r (miss_count st) of
              None \<Rightarrow> None
            | Some m \<Rightarrow>
                (case incr r (eviction_count st) of
                   None \<Rightarrow> None
                 | Some e \<Rightarrow>
                     if 6 < cap
                     then Some (xs[finalIndex pol sv := evict_line tg clock (xs ! finalIndex pol sv)],
                                st\<lparr>miss_count := m, eviction_count := e\<rparr>, ''evict '')
                     else None))"
proof -
  from loop_full [of tg "init_survey xs st clock" 0 lines r cap clock] assms(1,2)
  obtain sv where loop: "survey_loop r cap lines tg clock (init_survey xs st clock) 0 = Some sv"
    and sv: "singleSet sv = xs" "stats sv = st" "stored sv = 0"
    by (auto simp: init_survey_def)
  from loop_idx [OF loop sv(3), of pol] assms(3) have v: "finalIndex pol sv < nat lines" by linarith
  with assms(2) have "finalIndex pol sv < length xs" by linarith
  with loop sv v show ?thesis
    by (simp add: surveySet_def Let_def strcpy_def split: option.splits)
qed

lemma others_update: "j \<le> k \<Longrightarrow> others tg (xs[k := y]) i j = others tg xs i j"
  by (simp add: others_def)

lemma stops_update: "stops tg lines (xs[j := y]) i j = stops tg lines xs i j"
  by (simp add: stops_def others_update)

lemma others_less: "others tg xs i j \<Longrightarrow> j' \<le> j \<Longrightarrow> others tg xs i j'"
  by (simp add: others_def)

lemma surveySet_holds_tag:
  assumes "surveySet r cap xs st lines tg clock pol = Some (xs', st', res)" and "1 \<le> lines"
  shows "\<exists>j. stops tg lines xs' 0 j \<and> valid (xs' ! j) \<noteq> 0 \<and> tag (xs' ! j) = tg"
  using assms(1)
proof (cases rule: surveySet_cases)
  case (hit j h)
  then show ?thesis
    by (intro exI [of _ j]) (simp add: stops_update, simp add: stops_def hit_line_def)
next
  case (fill j m)
  then show ?thesis
    by (intro exI [of _ j]) (simp add: stops_update, simp add: stops_def fill_line_def)
next
  case (evict sv m e)
  let ?v = "finalIndex pol sv"
  from evict assms(2) have v: "?v < nat lines" by linarith
  with evict(3) have "valid (xs ! ?v) \<noteq> 0" by (simp add: others_def)
  moreover have "stops tg lines xs 0 ?v"
    using v evict(5) others_less [OF evict(3), of ?v] by (simp add: stops_def)
  ultimately show ?thesis using evict
    by (intro exI [of _ ?v]) (simp add: stops_update, simp add: evict_line_def)
qed

text \<open>
  Two lookups of the same tag in a row, as an \<open>M\<close> makes them: whatever the first one
  returned into a buffer of any size, the second one is a hit.
\<close>

lemma second_lookup_hits:
  assumes "surveySet r cap xs st lines tg clock pol = Some (set1, st1, r1)" and "1 \<le> lines"
  shows "\<exists>j. j < length set1 \<and> valid (set1 ! j) \<noteq> 0 \<and> tag (set1 ! j) = tg \<and>
           surveySet r cap set1 st1 lines tg (clock + 1) pol =
             (case incr r (hit_count st1) of
                None \<Rightarrow> None
              | Some h \<Rightarrow>
                  Some (set1[j := hit_line (clock + 1) (set1 ! j)], st1\<lparr>hit_count := h\<rparr>, ''hit ''))"
proof -
  from surveySet_holds_tag [OF assms] obtain j where
    j: "stops tg lines set1 0 j" "valid (set1 ! j) \<noteq> 0" "tag (set1 ! j) = tg"
    by blast
  have cap: "4 < cap"
    using assms(1) by (cases rule: surveySet_cases) simp_all
  from j(1) have "j < length set1" by (simp add: stops_def)
  with j cap surveySet_hit [OF j, of r cap st1 "clock + 1" pol] show ?thesis
    by (intro exI [of _ j]) (simp split: option.splits)
qed

text \<open>
  The buffer of \<open>cacheSim\<close> has 6 bytes: a lookup that returns into it was a hit or a
  miss into an empty line, and left \<open>eviction_count\<close> alone.
\<close>

lemma surveySet_6:
  assumes "surveySet r 6 xs st lines tg clock pol = Some (xs', st', res)"
  shows "eviction_count st' = eviction_count st" and "res = ''hit '' \<or> res = ''miss ''"
  using assms by (cases rule: surveySet_cases; simp)+

section \<open>What the replay maintains\<close>

lemma surveySet_length:
  assumes "surveySet r cap xs st lines tg clock pol = Some (xs', st', res)"
  shows "length xs' = length xs"
  using assms by (cases rule: surveySet_cases) simp_all

lemma surveySet_valid:
  assumes "surveySet r cap xs st lines tg clock pol = Some (xs', st', res)"
    and "i < length xs" and "valid (xs ! i) \<noteq> 0"
  shows "valid (xs' ! i) \<noteq> 0"
  using assms(1)
proof (cases rule: surveySet_cases)
  case (hit j h)
  with assms(2,3) show ?thesis by (cases "i = j") (simp_all add: hit_line_def)
next
  case (fill j m)
  with assms(2,3) show ?thesis by (cases "i = j") (simp_all add: fill_line_def)
next
  case (evict sv m e)
  with assms(2,3) show ?thesis by (cases "i = finalIndex pol sv") (simp_all add: evict_line_def)
qed

lemma stats_ok_below:
  assumes "stats_ok st" and "hit_count st + miss_count st < INT_MAX"
  shows "hit_count st < INT_MAX" "miss_count st < INT_MAX" "eviction_count st < INT_MAX"
  using assms by (simp_all add: stats_ok_def)

lemma surveySet_stats:
  assumes "surveySet r cap xs st lines tg clock pol = Some (xs', st', res)"
    and ok: "stats_ok st" and room: "hit_count st + miss_count st < INT_MAX"
  shows "hit_count st' + miss_count st' = hit_count st + miss_count st + 1"
    and "stats_ok st'"
proof -
  note below = stats_ok_below [OF ok room]
  show "hit_count st' + miss_count st' = hit_count st + miss_count st + 1"
    using assms(1)
  proof (cases rule: surveySet_cases)
    case (hit j h)
    with incr_SomeD [OF hit(4) below(1)] show ?thesis by simp
  next
    case (fill j m)
    with incr_SomeD [OF fill(3) below(2)] show ?thesis by simp
  next
    case (evict sv m e)
    with incr_SomeD [OF evict(7) below(2)] show ?thesis by simp
  qed
  show "stats_ok st'"
    using assms(1)
  proof (cases rule: surveySet_cases)
    case (hit j h)
    with incr_SomeD [OF hit(4) below(1)] ok show ?thesis by (simp add: stats_ok_def)
  next
    case (fill j m)
    with incr_SomeD [OF fill(3) below(2)] ok show ?thesis by (simp add: stats_ok_def)
  next
    case (evict sv m e)
    with incr_SomeD [OF evict(7) below(2)] incr_SomeD [OF evict(8) below(3)] ok
    show ?thesis by (simp add: stats_ok_def)
  qed
qed

lemma set_okI:
  assumes "\<And>i. i < length xs \<Longrightarrow> valid (xs ! i) = 0 \<Longrightarrow> xs ! i = singleLine"
    and "\<And>i j. i < length xs \<Longrightarrow> valid (xs ! i) \<noteq> 0 \<Longrightarrow> j < i \<Longrightarrow> valid (xs ! j) \<noteq> 0"
    and "\<And>i. i < length xs \<Longrightarrow> recent (xs ! i) \<le> c"
  shows "set_ok c xs"
  using assms unfolding set_ok_def by simp

lemma set_ok_fresh: "set_ok c xs \<Longrightarrow> i < length xs \<Longrightarrow> valid (xs ! i) = 0 \<Longrightarrow> xs ! i = singleLine"
  unfolding set_ok_def by simp

lemma set_ok_prefix:
  "set_ok c xs \<Longrightarrow> i < length xs \<Longrightarrow> valid (xs ! i) \<noteq> 0 \<Longrightarrow> j < i \<Longrightarrow> valid (xs ! j) \<noteq> 0"
  unfolding set_ok_def by simp

lemma set_ok_recent: "set_ok c xs \<Longrightarrow> i < length xs \<Longrightarrow> recent (xs ! i) \<le> c"
  unfolding set_ok_def by simp

lemma set_ok_mono: "set_ok c xs \<Longrightarrow> c \<le> c' \<Longrightarrow> set_ok c' xs"
  by (rule set_okI) (auto dest: set_ok_fresh set_ok_prefix set_ok_recent)

lemma set_ok_update:
  assumes ok: "set_ok c xs" and k: "k < length xs"
    and y: "valid y \<noteq> 0" "recent y \<le> c"
    and before: "\<And>j. j < k \<Longrightarrow> valid (xs ! j) \<noteq> 0"
  shows "set_ok c (xs[k := y])"
proof (rule set_okI)
  fix i assume i: "i < length (xs[k := y])" and "valid (xs[k := y] ! i) = 0"
  with y(1) k have "i \<noteq> k" by auto
  with i \<open>valid (xs[k := y] ! i) = 0\<close> show "xs[k := y] ! i = singleLine"
    using set_ok_fresh [OF ok, of i] by simp
next
  fix i j assume i: "i < length (xs[k := y])" and v: "valid (xs[k := y] ! i) \<noteq> 0" and j: "j < i"
  show "valid (xs[k := y] ! j) \<noteq> 0"
  proof (cases "j = k")
    case True
    with k y(1) show ?thesis by simp
  next
    case False
    show ?thesis
    proof (cases "i = k")
      case True
      with before j False show ?thesis by simp
    next
      case ik: False
      with i v have "valid (xs ! i) \<noteq> 0" by simp
      from set_ok_prefix [OF ok _ this j] i False show ?thesis by simp
    qed
  qed
next
  fix i assume i: "i < length (xs[k := y])"
  show "recent (xs[k := y] ! i) \<le> c"
  proof (cases "i = k")
    case True
    with k y(2) show ?thesis by simp
  next
    case False
    with i set_ok_recent [OF ok, of i] show ?thesis by simp
  qed
qed

lemma surveySet_set_ok:
  assumes "surveySet r cap xs st lines tg clock pol = Some (xs', st', res)"
    and ok: "set_ok c xs" and "length xs = nat lines" and "clock \<le> c"
  shows "set_ok c xs'"
  using assms(1)
proof (cases rule: surveySet_cases)
  case (hit j h)
  then have j: "j < length xs" by (simp add: stops_def)
  have "set_ok c (xs[j := hit_line clock (xs ! j)])"
  proof (rule set_ok_update [OF ok j])
    show "valid (hit_line clock (xs ! j)) \<noteq> 0" using hit(2) by (simp add: hit_line_def)
    show "recent (hit_line clock (xs ! j)) \<le> c" using assms(4) by (simp add: hit_line_def)
    show "valid (xs ! m) \<noteq> 0" if "m < j" for m
      using set_ok_prefix [OF ok j hit(2) that] .
  qed
  with hit(6) show ?thesis by simp
next
  case (fill j m)
  then have j: "j < length xs" "others tg xs 0 j" by (simp_all add: stops_def)
  have "set_ok c (xs[j := fill_line tg clock (xs ! j)])"
  proof (rule set_ok_update [OF ok j(1)])
    show "valid (fill_line tg clock (xs ! j)) \<noteq> 0" by (simp add: fill_line_def)
    show "recent (fill_line tg clock (xs ! j)) \<le> c" using assms(4) by (simp add: fill_line_def)
    show "valid (xs ! m) \<noteq> 0" if "m < j" for m
      using j(2) that by (simp add: others_def)
  qed
  with fill(5) show ?thesis by simp
next
  case (evict sv m e)
  let ?v = "finalIndex pol sv"
  have v: "valid (xs ! ?v) \<noteq> 0"
    using evict(3,5,6) assms(3) by (simp add: others_def)
  have "set_ok c (xs[?v := evict_line tg clock (xs ! ?v)])"
  proof (rule set_ok_update [OF ok evict(5)])
    show "valid (evict_line tg clock (xs ! ?v)) \<noteq> 0" using v by (simp add: evict_line_def)
    show "recent (evict_line tg clock (xs ! ?v)) \<le> c" using assms(4) by (simp add: evict_line_def)
    show "valid (xs ! m) \<noteq> 0" if "m < ?v" for m
      using set_ok_prefix [OF ok evict(5) v that] .
  qed
  with evict(10) show ?thesis by simp
qed


lemma cacheSim_cases:
  assumes "cacheSim r cache st tg setNumber lines clock operation pol = Some (cache', st', rs)"
  obtains
    (single) set1 r1 where "0 \<le> sint setNumber" "nat (sint setNumber) < length cache"
      "operation \<noteq> CHR ''M''"
      "surveySet r 6 (cache ! nat (sint setNumber)) st lines tg clock pol = Some (set1, st', r1)"
      "cache' = cache[nat (sint setNumber) := set1]" "rs = [r1]"
  | (modify) set1 st1 r1 set2 r2 where "0 \<le> sint setNumber" "nat (sint setNumber) < length cache"
      "operation = CHR ''M''"
      "surveySet r 6 (cache ! nat (sint setNumber)) st lines tg clock pol = Some (set1, st1, r1)"
      "surveySet r 6 set1 st1 lines tg (clock + 1) pol = Some (set2, st', r2)"
      "cache' = cache[nat (sint setNumber) := set2]" "rs = [r1, r2]"
  using assms
  by (auto simp: cacheSim_def Let_def split: if_splits option.splits)

lemma cache_ok_update:
  "cache_ok lines c cache \<Longrightarrow> length xs = nat lines \<Longrightarrow> set_ok c xs \<Longrightarrow>
   cache_ok lines c (cache[k := xs])"
  unfolding cache_ok_def using set_update_subset_insert [of cache k xs] by auto

lemma cache_ok_nth:
  "cache_ok lines c cache \<Longrightarrow> k < length cache \<Longrightarrow>
   length (cache ! k) = nat lines \<and> set_ok c (cache ! k)"
  by (simp add: cache_ok_def)

lemma cache_ok_mono: "cache_ok lines c cache \<Longrightarrow> c \<le> c' \<Longrightarrow> cache_ok lines c' cache"
  unfolding cache_ok_def using set_ok_mono by blast

lemma cacheSim_ok:
  assumes "cacheSim r cache st tg setNumber lines clock operation pol = Some (cache', st', rs)"
    and ok: "cache_ok lines c cache" and c: "clock + 1 \<le> c"
  shows "cache_ok lines c cache'"
  using assms(1)
proof (cases rule: cacheSim_cases)
  case (single set1 r1)
  note k = cache_ok_nth [OF ok single(2)]
  have "set_ok c set1"
    using surveySet_set_ok [OF single(4)] k c by simp
  moreover have "length set1 = nat lines"
    using surveySet_length [OF single(4)] k by simp
  ultimately show ?thesis
    using cache_ok_update [OF ok] single(5) by simp
next
  case (modify set1 st1 r1 set2 r2)
  note k = cache_ok_nth [OF ok modify(2)]
  have 1: "set_ok c set1"
    using surveySet_set_ok [OF modify(4)] k c by simp
  have l1: "length set1 = nat lines"
    using surveySet_length [OF modify(4)] k by simp
  have "set_ok c set2"
    using surveySet_set_ok [OF modify(5) 1 l1] c by simp
  moreover have "length set2 = nat lines"
    using surveySet_length [OF modify(5)] l1 by simp
  ultimately show ?thesis
    using cache_ok_update [OF ok] modify(6) by simp
qed

lemma cacheSim_shape:
  assumes "cacheSim r cache st tg setNumber lines clock operation pol = Some (cache', st', rs)"
  shows "int (length rs) = (if operation = CHR ''M'' then 2 else 1)"
    and "length cache' = length cache"
    and "eviction_count st' = eviction_count st"
proof -
  show "int (length rs) = (if operation = CHR ''M'' then 2 else 1)"
    using assms by (cases rule: cacheSim_cases) simp_all
  show "length cache' = length cache"
    using assms by (cases rule: cacheSim_cases) simp_all
  show "eviction_count st' = eviction_count st"
    using assms
  proof (cases rule: cacheSim_cases)
    case (single set1 r1)
    then show ?thesis using surveySet_6(1) by blast
  next
    case (modify set1 st1 r1 set2 r2)
    with surveySet_6(1) [OF modify(4)] surveySet_6(1) [OF modify(5)] show ?thesis by simp
  qed
qed

lemma cacheSim_stats:
  assumes "cacheSim r cache st tg setNumber lines clock operation pol = Some (cache', st', rs)"
    and ok: "stats_ok st"
    and room: "hit_count st + miss_count st + (if operation = CHR ''M'' then 2 else 1) \<le> INT_MAX"
  shows "hit_count st' + miss_count st' =
         hit_count st + miss_count st + (if operation = CHR ''M'' then 2 else 1)"
    and "stats_ok st'"
proof -
  from room have room1: "hit_count st + miss_count st < INT_MAX" by (simp split: if_splits)
  show "hit_count st' + miss_count st' =
         hit_count st + miss_count st + (if operation = CHR ''M'' then 2 else 1)"
    using assms(1)
  proof (cases rule: cacheSim_cases)
    case (single set1 r1)
    with surveySet_stats(1) [OF single(4) ok room1] show ?thesis by simp
  next
    case (modify set1 st1 r1 set2 r2)
    note 1 = surveySet_stats [OF modify(4) ok room1]
    from 1(1) room modify(3) have "hit_count st1 + miss_count st1 < INT_MAX" by simp
    from surveySet_stats(1) [OF modify(5) 1(2) this] 1(1) modify(3) show ?thesis by simp
  qed
  show "stats_ok st'"
    using assms(1)
  proof (cases rule: cacheSim_cases)
    case (single set1 r1)
    with surveySet_stats(2) [OF single(4) ok room1] show ?thesis by simp
  next
    case (modify set1 st1 r1 set2 r2)
    note 1 = surveySet_stats [OF modify(4) ok room1]
    from 1(1) room modify(3) have "hit_count st1 + miss_count st1 < INT_MAX" by simp
    from surveySet_stats(2) [OF modify(5) 1(2) this] show ?thesis .
  qed
qed

lemma keeps_valid_refl: "keeps_valid cache cache"
  by (simp add: keeps_valid_def)

lemma keeps_valid_trans:
  "keeps_valid a b \<Longrightarrow> keeps_valid b c \<Longrightarrow> keeps_valid a c"
  unfolding keeps_valid_def by simp

lemma keeps_valid_update:
  assumes "k < length cache" and "length xs = length (cache ! k)"
    and "\<And>i. i < length (cache ! k) \<Longrightarrow> valid (cache ! k ! i) \<noteq> 0 \<Longrightarrow> valid (xs ! i) \<noteq> 0"
  shows "keeps_valid cache (cache[k := xs])"
  unfolding keeps_valid_def using assms by (simp add: nth_list_update)

lemma cacheSim_keeps_valid:
  assumes "cacheSim r cache st tg setNumber lines clock operation pol = Some (cache', st', rs)"
  shows "keeps_valid cache cache'"
  using assms
proof (cases rule: cacheSim_cases)
  case (single set1 r1)
  show ?thesis
    unfolding single(5)
    using single(2) surveySet_length [OF single(4)] surveySet_valid [OF single(4)]
    by (intro keeps_valid_update) simp_all
next
  case (modify set1 st1 r1 set2 r2)
  show ?thesis
    unfolding modify(6)
  proof (rule keeps_valid_update [OF modify(2)])
    show "length set2 = length (cache ! nat (sint setNumber))"
      using surveySet_length [OF modify(4)] surveySet_length [OF modify(5)] by simp
    fix i assume i: "i < length (cache ! nat (sint setNumber))"
      and v: "valid (cache ! nat (sint setNumber) ! i) \<noteq> 0"
    have "valid (set1 ! i) \<noteq> 0" by (rule surveySet_valid [OF modify(4) i v])
    moreover have "i < length set1" using surveySet_length [OF modify(4)] i by simp
    ultimately show "valid (set2 ! i) \<noteq> 0" by (rule surveySet_valid [OF modify(5), rotated])
  qed
qed

lemma main_loop_Access:
  assumes "main_loop r args (cache, st, clock, out) (Access operation address # tr) = Some s'"
  obtains tg setNumber cache1 st1 rs where
    "findTag r address (sbits args) (bbits args) = Some tg"
    "findSet r address (sbits args) (bbits args) = Some setNumber"
    "cacheSim r cache st tg setNumber (perset args) (clock + 1) operation (policy args) =
       Some (cache1, st1, rs)"
    "main_loop r args (cache1, st1, clock + 1, out @ rs) tr = Some s'"
  using assms by (auto split: option.splits)

lemma subaccesses_nonneg: "0 \<le> subaccesses tr"
  by (induction tr rule: subaccesses.induct) simp_all

lemma main_loop_inv:
  assumes "main_loop r args (cache, st, clock, out) tr = Some (cache', st', clock', out')"
  shows "keeps_valid cache cache' \<and>
         (cache_ok (perset args) (clock + 1) cache \<longrightarrow> cache_ok (perset args) (clock' + 1) cache') \<and>
         int (length out') = int (length out) + subaccesses tr \<and>
         eviction_count st' = eviction_count st \<and>
         (stats_ok st \<and> hit_count st + miss_count st + subaccesses tr \<le> INT_MAX \<longrightarrow>
            stats_ok st' \<and>
            hit_count st' + miss_count st' = hit_count st + miss_count st + subaccesses tr)"
  using assms
proof (induction tr arbitrary: cache st clock out)
  case Nil
  then show ?case by (simp add: keeps_valid_refl)
next
  case (Cons x tr)
  show ?case
  proof (cases x)
    case Other
    with Cons.prems have "main_loop r args (cache, st, clock, out) tr = Some (cache', st', clock', out')"
      by simp
    from Cons.IH [OF this] Other show ?thesis by simp
  next
    case (Access operation address)
    from Cons.prems [unfolded Access] obtain tg setNumber cache1 st1 rs where
      sim: "cacheSim r cache st tg setNumber (perset args) (clock + 1) operation (policy args) =
         Some (cache1, st1, rs)"
      and rest: "main_loop r args (cache1, st1, clock + 1, out @ rs) tr = Some (cache', st', clock', out')"
      by (rule main_loop_Access)
    note IH = Cons.IH [OF rest]
    have kv: "keeps_valid cache cache'"
      using keeps_valid_trans [OF cacheSim_keeps_valid [OF sim]] IH by simp
    have ok: "cache_ok (perset args) (clock' + 1) cache'" if "cache_ok (perset args) (clock + 1) cache"
    proof -
      from that have "cache_ok (perset args) (clock + 1 + 1) cache"
        by (rule cache_ok_mono) simp
      from cacheSim_ok [OF sim this] IH show ?thesis by simp
    qed
    have len: "int (length out') = int (length out) + subaccesses (x # tr)"
      using cacheSim_shape(1) [OF sim] IH Access by simp
    have ev: "eviction_count st' = eviction_count st"
      using cacheSim_shape(3) [OF sim] IH by simp
    have cnt: "stats_ok st' \<and>
        hit_count st' + miss_count st' = hit_count st + miss_count st + subaccesses (x # tr)"
      if so: "stats_ok st" and room: "hit_count st + miss_count st + subaccesses (x # tr) \<le> INT_MAX"
    proof -
      from room Access subaccesses_nonneg [of tr]
      have room1: "hit_count st + miss_count st + (if operation = CHR ''M'' then 2 else 1) \<le> INT_MAX"
        by (simp split: if_splits)
      note 1 = cacheSim_stats [OF sim so room1]
      from 1(1) room Access have "hit_count st1 + miss_count st1 + subaccesses tr \<le> INT_MAX"
        by simp
      with IH 1 Access show ?thesis by simp
    qed
    from kv ok len ev cnt show ?thesis by blast
  qed
qed

lemma fresh_cache_ok: "cache_ok lines (0 + 1) (buildCache lines sets)"
  by (auto simp: cache_ok_def set_ok_def buildCache_def singleLine_def)

lemma fresh_stats_ok: "stats_ok \<lparr>miss_count = 0, hit_count = 0, eviction_count = 0\<rparr>"
  by (simp add: stats_ok_def)

lemma reach_inv:
  assumes "main_loop r args (fresh (perset args) sets) tr = Some (cache, st, clock, out)"
  shows "cache_ok (perset args) (clock + 1) cache"
    and "int (length out) = subaccesses tr"
    and "length cache = nat sets"
    and "eviction_count st = 0"
    and "subaccesses tr \<le> INT_MAX \<Longrightarrow> stats_ok st"
    and "subaccesses tr \<le> INT_MAX \<Longrightarrow> hit_count st + miss_count st = subaccesses tr"
  using main_loop_inv [OF assms [unfolded fresh_def]] fresh_cache_ok [of "perset args" sets]
    fresh_stats_ok
  by (simp_all add: keeps_valid_def buildCache_def)

section \<open>Long traces\<close>

text \<open>
  A trace that takes a counter past \<open>INT_MAX\<close>: one miss and then hits on the same line,
  under \<open>cfg\<close>. The replay of \<open>n\<close> hits is computed by induction, not by evaluation.
\<close>

lemma main_loop_append:
  "main_loop r args s (xs @ ys) =
   (case main_loop r args s xs of None \<Rightarrow> None | Some s' \<Rightarrow> main_loop r args s' ys)"
proof (induction xs arbitrary: s)
  case Nil
  then show ?case by simp
next
  case (Cons x xs)
  obtain cache st clock out where s: "s = (cache, st, clock, out)" by (cases s)
  show ?case
  proof (cases x)
    case Other
    with Cons show ?thesis by simp
  next
    case (Access operation address)
    with Cons s show ?thesis by (simp split: option.splits)
  qed
qed

lemma cfg_decodes_0:
  "findTag r 0 (sbits cfg) (bbits cfg) = Some 0" "findSet r 0 (sbits cfg) (bbits cfg) = Some 0"
  by (simp_all add: findTag_def findSet_def shl_int_def sar_long_def cfg_def)

lemma hit_step:
  assumes "operation \<noteq> CHR ''M''"
  shows "main_loop r cfg
           ([[\<lparr>valid = 1, tag = 0, recent = c, freq = f\<rparr>, y], z], st, c, out)
           [Access operation 0] =
         (case incr r (hit_count st) of
            None \<Rightarrow> None
          | Some h \<Rightarrow>
              Some ([[\<lparr>valid = 1, tag = 0, recent = c + 1, freq = f + 1\<rparr>, y], z],
                    st\<lparr>hit_count := h\<rparr>, c + 1, out @ [''hit '']))"
proof -
  let ?xs = "[\<lparr>valid = 1, tag = 0, recent = c, freq = f\<rparr>, y]"
  have "stops 0 (perset cfg) ?xs 0 0" by (simp add: stops_def cfg_def)
  from surveySet_hit [OF this, of r 6 st "c + 1" "policy cfg"]
  have "surveySet r 6 ?xs st (perset cfg) 0 (c + 1) (policy cfg) =
      (case incr r (hit_count st) of
         None \<Rightarrow> None
       | Some h \<Rightarrow>
           Some ([\<lparr>valid = 1, tag = 0, recent = c + 1, freq = f + 1\<rparr>, y],
                 st\<lparr>hit_count := h\<rparr>, ''hit ''))"
    by (simp add: hit_line_def split: option.splits)
  with assms show ?thesis
    by (simp add: cfg_decodes_0 cacheSim_def split: option.splits)
qed

lemma run_hits:
  assumes "operation \<noteq> CHR ''M''" and "hit_count st + int n \<le> INT_MAX"
  shows "main_loop r cfg
           ([[\<lparr>valid = 1, tag = 0, recent = c, freq = f\<rparr>, y], z], st, c, out)
           (replicate n (Access operation 0)) =
         Some ([[\<lparr>valid = 1, tag = 0, recent = c + int n, freq = f + int n\<rparr>, y], z],
               st\<lparr>hit_count := hit_count st + int n\<rparr>, c + int n, out @ replicate n ''hit '')"
  using assms(2)
proof (induction n arbitrary: c f st out)
  case 0
  then show ?case by simp
next
  case (Suc n)
  then have "hit_count st < INT_MAX" by simp
  then have h: "incr r (hit_count st) = Some (hit_count st + 1)" by (rule incr_Some)
  have "replicate (Suc n) (Access operation 0) = [Access operation 0] @ replicate n (Access operation 0)"
    by simp
  then have "main_loop r cfg
           ([[\<lparr>valid = 1, tag = 0, recent = c, freq = f\<rparr>, y], z], st, c, out)
           (replicate (Suc n) (Access operation 0)) =
         main_loop r cfg
           ([[\<lparr>valid = 1, tag = 0, recent = c + 1, freq = f + 1\<rparr>, y], z],
            st\<lparr>hit_count := hit_count st + 1\<rparr>, c + 1, out @ [''hit ''])
           (replicate n (Access operation 0))"
    by (simp only: main_loop_append hit_step [OF assms(1)] h option.case)
  also have "\<dots> = Some ([[\<lparr>valid = 1, tag = 0, recent = c + 1 + int n, freq = f + 1 + int n\<rparr>, y], z],
               st\<lparr>hit_count := hit_count st + 1\<rparr>\<lparr>hit_count := hit_count (st\<lparr>hit_count := hit_count st + 1\<rparr>) + int n\<rparr>,
               c + 1 + int n, (out @ [''hit '']) @ replicate n ''hit '')"
    using Suc.prems by (intro Suc.IH) simp
  finally show ?case
    by (simp add: replicate_app_Cons_same algebra_simps)
qed

lemma subaccesses_replicate:
  "operation \<noteq> CHR ''M'' \<Longrightarrow> subaccesses (replicate n (Access operation address)) = int n"
  by (induction n) simp_all

lemma subaccesses_append: "subaccesses (xs @ ys) = subaccesses xs + subaccesses ys"
  by (induction xs rule: subaccesses.induct) simp_all

lemma long_run:
  assumes "operation \<noteq> CHR ''M''"
    and first: "main_loop r cfg (fresh 2 2) [Access operation 0] =
      Some ([[\<lparr>valid = 1, tag = 0, recent = 1, freq = 0\<rparr>, y], z],
            \<lparr>miss_count = 1, hit_count = 0, eviction_count = 0\<rparr>, 1, [''miss ''])"
  shows "main_loop r cfg (fresh 2 2)
           (Access operation 0 # replicate 2147483647 (Access operation 0) @ [Access operation 0]) =
         (case incr r INT_MAX of
            None \<Rightarrow> None
          | Some h \<Rightarrow>
              Some ([[\<lparr>valid = 1, tag = 0, recent = 2147483649, freq = 2147483648\<rparr>, y], z],
                    \<lparr>miss_count = 1, hit_count = h, eviction_count = 0\<rparr>, 2147483649,
                    ''miss '' # replicate 2147483647 ''hit '' @ [''hit '']))"
proof -
  have split: "Access operation 0 # replicate 2147483647 (Access operation 0) @ [Access operation 0] =
      [Access operation 0] @ (replicate 2147483647 (Access operation 0) @ [Access operation 0])"
    by simp
  have run: "main_loop r cfg
           ([[\<lparr>valid = 1, tag = 0, recent = 1, freq = 0\<rparr>, y], z],
            \<lparr>miss_count = 1, hit_count = 0, eviction_count = 0\<rparr>, 1, [''miss ''])
           (replicate 2147483647 (Access operation 0)) =
         Some ([[\<lparr>valid = 1, tag = 0, recent = 2147483648, freq = 2147483647\<rparr>, y], z],
               \<lparr>miss_count = 1, hit_count = 2147483647, eviction_count = 0\<rparr>, 2147483648,
               [''miss ''] @ replicate 2147483647 ''hit '')"
    using run_hits [OF assms(1), of "\<lparr>miss_count = 1, hit_count = 0, eviction_count = 0\<rparr>"
        2147483647 r 1 0 y z "[''miss '']"]
    by (simp add: INT_MAX_def)
  note last = hit_step [OF assms(1), of r 2147483648 2147483647 y z
      "\<lparr>miss_count = 1, hit_count = 2147483647, eviction_count = 0\<rparr>"
      "[''miss ''] @ replicate 2147483647 ''hit ''"]
  show ?thesis
    unfolding split
    by (simp only: main_loop_append first run last option.case)
      (simp add: INT_MAX_def split: option.splits)
qed

section \<open>Properties of the replay\<close>

text \<open>
  Claim C4, amended. After the replay of a trace that asks for at most \<open>INT_MAX\<close> lookups
  (one for a line read as an access, two when its operation is \<open>M\<close>, none for a line that
  the loop skips), \<open>hit_count + miss_count\<close> is that number of lookups, whenever the replay
  returns. Without the bound the claim fails: see the theorem after the witness.
\<close>

theorem replay_counts_lookups:
  assumes "main_loop r args (fresh (perset args) sets) tr = Some (cache, st, clock, out)"
    and "subaccesses tr \<le> INT_MAX"
  shows "hit_count st + miss_count st = subaccesses tr"
  using reach_inv(6) [OF assms] .

theorem replay_counts_lookups_witness:
  "main_loop Strict cfg (fresh (perset cfg) 2)
     [Access (CHR ''L'') 0, Other, Access (CHR ''M'') 0x200000000, Access (CHR ''S'') 0] =
   Some ([[\<lparr>valid = 1, tag = 0, recent = 3, freq = 1\<rparr>,
       \<lparr>valid = 1, tag = 1, recent = 3, freq = 1\<rparr>],
      [\<lparr>valid = 0, tag = 0, recent = 0, freq = 0\<rparr>,
       \<lparr>valid = 0, tag = 0, recent = 0, freq = 0\<rparr>]],
     \<lparr>miss_count = 2, hit_count = 2, eviction_count = 0\<rparr>, 3,
     [''miss '', ''miss '', ''hit '', ''hit '']) \<and>
   subaccesses [Access (CHR ''L'') 0, Other, Access (CHR ''M'') 0x200000000, Access (CHR ''S'') 0] \<le> INT_MAX \<and>
   hit_count \<lparr>miss_count = 2, hit_count = 2, eviction_count = 0\<rparr> + miss_count \<lparr>miss_count = 2, hit_count = 2, eviction_count = 0\<rparr> = 4"
proof -
  have h: "main_loop Strict cfg (fresh (perset cfg) 2)
     [Access (CHR ''L'') 0, Other, Access (CHR ''M'') 0x200000000, Access (CHR ''S'') 0] =
   Some ([[\<lparr>valid = 1, tag = 0, recent = 3, freq = 1\<rparr>,
       \<lparr>valid = 1, tag = 1, recent = 3, freq = 1\<rparr>],
      [\<lparr>valid = 0, tag = 0, recent = 0, freq = 0\<rparr>,
       \<lparr>valid = 0, tag = 0, recent = 0, freq = 0\<rparr>]],
     \<lparr>miss_count = 2, hit_count = 2, eviction_count = 0\<rparr>, 3,
     [''miss '', ''miss '', ''hit '', ''hit ''])"
    by code_simp
  have b: "subaccesses [Access (CHR ''L'') 0, Other, Access (CHR ''M'') 0x200000000, Access (CHR ''S'') 0] \<le> INT_MAX"
    by code_simp
  from replay_counts_lookups [OF h b] show ?thesis using h b by simp
qed

text \<open>
  2147483649 loads of the same address: one miss, and the last of the 2147483648 hits
  increments a \<open>hit_count\<close> that holds \<open>INT_MAX\<close>. As compiled the counter wraps and
  \<open>hit_count + miss_count\<close> is negative; in C the replay is undefined.
\<close>

theorem long_trace_miscounts:
  "main_loop Masked cfg (fresh 2 2)
     (Access (CHR ''L'') 0 # replicate 2147483647 (Access (CHR ''L'') 0) @
        [Access (CHR ''L'') 0]) =
   Some ([[\<lparr>valid = 1, tag = 0, recent = 2147483649, freq = 2147483648\<rparr>,
       \<lparr>valid = 0, tag = 0, recent = 0, freq = 0\<rparr>],
      [\<lparr>valid = 0, tag = 0, recent = 0, freq = 0\<rparr>,
       \<lparr>valid = 0, tag = 0, recent = 0, freq = 0\<rparr>]],
         \<lparr>miss_count = 1, hit_count = - 2147483648, eviction_count = 0\<rparr>, 2147483649,
         ''miss '' # replicate 2147483647 ''hit '' @ [''hit '']) \<and>
   hit_count \<lparr>miss_count = 1, hit_count = - 2147483648, eviction_count = 0\<rparr> + miss_count \<lparr>miss_count = 1, hit_count = - 2147483648, eviction_count = 0\<rparr> \<noteq>
   subaccesses
     (Access (CHR ''L'') 0 # replicate 2147483647 (Access (CHR ''L'') 0) @
        [Access (CHR ''L'') 0]) \<and>
   main_loop Strict cfg (fresh 2 2)
     (Access (CHR ''L'') 0 # replicate 2147483647 (Access (CHR ''L'') 0) @
        [Access (CHR ''L'') 0]) = None"
proof -
  have op: "CHR ''L'' \<noteq> CHR ''M''" by simp
  have m: "main_loop Masked cfg (fresh 2 2) [Access (CHR ''L'') 0] =
      Some ([[\<lparr>valid = 1, tag = 0, recent = 1, freq = 0\<rparr>, \<lparr>valid = 0, tag = 0, recent = 0, freq = 0\<rparr>], [\<lparr>valid = 0, tag = 0, recent = 0, freq = 0\<rparr>, \<lparr>valid = 0, tag = 0, recent = 0, freq = 0\<rparr>]],
            \<lparr>miss_count = 1, hit_count = 0, eviction_count = 0\<rparr>, 1, [''miss ''])"
    by code_simp
  have s: "main_loop Strict cfg (fresh 2 2) [Access (CHR ''L'') 0] =
      Some ([[\<lparr>valid = 1, tag = 0, recent = 1, freq = 0\<rparr>, \<lparr>valid = 0, tag = 0, recent = 0, freq = 0\<rparr>], [\<lparr>valid = 0, tag = 0, recent = 0, freq = 0\<rparr>, \<lparr>valid = 0, tag = 0, recent = 0, freq = 0\<rparr>]],
            \<lparr>miss_count = 1, hit_count = 0, eviction_count = 0\<rparr>, 1, [''miss ''])"
    by code_simp
  have n: "subaccesses (Access (CHR ''L'') 0 # replicate 2147483647 (Access (CHR ''L'') 0) @
        [Access (CHR ''L'') 0]) = 2147483649"
    by (simp add: subaccesses_append subaccesses_replicate)
  from long_run [OF op m] long_run [OF op s] n show ?thesis
    by (simp add: incr_def INT_MAX_def)
qed

text \<open>
  Claim C5, amended. While a trace of at most \<open>INT_MAX\<close> lookups is replayed, the three
  counters are non-negative and \<open>eviction_count \<le> miss_count\<close>: after any number of its
  lines, and after a single lookup that starts with such counters below the bound, which
  is the point between the two lookups of an \<open>M\<close>. Without the bound the claim fails: see
  the theorem after the witness.
\<close>

theorem replay_counters:
  assumes "main_loop r args (fresh (perset args) sets) tr = Some (cache, st, clock, out)"
    and "subaccesses tr \<le> INT_MAX"
  shows "0 \<le> hit_count st \<and> 0 \<le> miss_count st \<and> 0 \<le> eviction_count st \<and>
         eviction_count st \<le> miss_count st \<and>
         (\<forall>r' cap xs lines tg c pol xs' st' res.
            surveySet r' cap xs st lines tg c pol = Some (xs', st', res) \<and>
            hit_count st + miss_count st < INT_MAX \<longrightarrow>
            0 \<le> hit_count st' \<and> 0 \<le> miss_count st' \<and> 0 \<le> eviction_count st' \<and>
            eviction_count st' \<le> miss_count st')"
proof -
  have ok: "stats_ok st" by (rule reach_inv(5) [OF assms])
  have "stats_ok st'"
    if "surveySet r' cap xs st lines tg c pol = Some (xs', st', res)"
      and "hit_count st + miss_count st < INT_MAX"
    for r' cap xs lines tg c pol xs' st' res
    using surveySet_stats(2) [OF that(1) ok that(2)] .
  with ok show ?thesis unfolding stats_ok_def by blast
qed

theorem replay_counters_witness:
  "main_loop Masked cfg (fresh (perset cfg) 2)
     [Access (CHR ''L'') 0, Access (CHR ''M'') 0x200000000, Access (CHR ''S'') 0] =
   Some ([[\<lparr>valid = 1, tag = 0, recent = 3, freq = 1\<rparr>,
       \<lparr>valid = 1, tag = 1, recent = 3, freq = 1\<rparr>],
      [\<lparr>valid = 0, tag = 0, recent = 0, freq = 0\<rparr>,
       \<lparr>valid = 0, tag = 0, recent = 0, freq = 0\<rparr>]],
     \<lparr>miss_count = 2, hit_count = 2, eviction_count = 0\<rparr>, 3,
     [''miss '', ''miss '', ''hit '', ''hit '']) \<and>
   subaccesses [Access (CHR ''L'') 0, Access (CHR ''M'') 0x200000000, Access (CHR ''S'') 0] \<le> INT_MAX \<and>
   0 \<le> hit_count \<lparr>miss_count = 2, hit_count = 2, eviction_count = 0\<rparr> \<and>
   eviction_count \<lparr>miss_count = 2, hit_count = 2, eviction_count = 0\<rparr> \<le> miss_count \<lparr>miss_count = 2, hit_count = 2, eviction_count = 0\<rparr>"
proof -
  have h: "main_loop Masked cfg (fresh (perset cfg) 2)
     [Access (CHR ''L'') 0, Access (CHR ''M'') 0x200000000, Access (CHR ''S'') 0] =
   Some ([[\<lparr>valid = 1, tag = 0, recent = 3, freq = 1\<rparr>,
       \<lparr>valid = 1, tag = 1, recent = 3, freq = 1\<rparr>],
      [\<lparr>valid = 0, tag = 0, recent = 0, freq = 0\<rparr>,
       \<lparr>valid = 0, tag = 0, recent = 0, freq = 0\<rparr>]],
     \<lparr>miss_count = 2, hit_count = 2, eviction_count = 0\<rparr>, 3,
     [''miss '', ''miss '', ''hit '', ''hit ''])"
    by code_simp
  have b: "subaccesses [Access (CHR ''L'') 0, Access (CHR ''M'') 0x200000000, Access (CHR ''S'') 0] \<le> INT_MAX"
    by code_simp
  from replay_counters [OF h b] show ?thesis using h b by blast
qed

text \<open>
  2147483649 stores to the same address: as compiled, \<open>hit_count\<close> ends at \<open>INT_MIN\<close>; in C
  the replay is undefined.
\<close>

theorem long_trace_negative_hits:
  "main_loop Masked cfg (fresh 2 2)
     (Access (CHR ''S'') 0 # replicate 2147483647 (Access (CHR ''S'') 0) @
        [Access (CHR ''S'') 0]) =
   Some ([[\<lparr>valid = 1, tag = 0, recent = 2147483649, freq = 2147483648\<rparr>,
       \<lparr>valid = 0, tag = 0, recent = 0, freq = 0\<rparr>],
      [\<lparr>valid = 0, tag = 0, recent = 0, freq = 0\<rparr>,
       \<lparr>valid = 0, tag = 0, recent = 0, freq = 0\<rparr>]],
         \<lparr>miss_count = 1, hit_count = - 2147483648, eviction_count = 0\<rparr>, 2147483649,
         ''miss '' # replicate 2147483647 ''hit '' @ [''hit '']) \<and>
   hit_count \<lparr>miss_count = 1, hit_count = - 2147483648, eviction_count = 0\<rparr> < 0 \<and>
   main_loop Strict cfg (fresh 2 2)
     (Access (CHR ''S'') 0 # replicate 2147483647 (Access (CHR ''S'') 0) @
        [Access (CHR ''S'') 0]) = None"
proof -
  have op: "CHR ''S'' \<noteq> CHR ''M''" by simp
  have m: "main_loop Masked cfg (fresh 2 2) [Access (CHR ''S'') 0] =
      Some ([[\<lparr>valid = 1, tag = 0, recent = 1, freq = 0\<rparr>, \<lparr>valid = 0, tag = 0, recent = 0, freq = 0\<rparr>], [\<lparr>valid = 0, tag = 0, recent = 0, freq = 0\<rparr>, \<lparr>valid = 0, tag = 0, recent = 0, freq = 0\<rparr>]],
            \<lparr>miss_count = 1, hit_count = 0, eviction_count = 0\<rparr>, 1, [''miss ''])"
    by code_simp
  have s: "main_loop Strict cfg (fresh 2 2) [Access (CHR ''S'') 0] =
      Some ([[\<lparr>valid = 1, tag = 0, recent = 1, freq = 0\<rparr>, \<lparr>valid = 0, tag = 0, recent = 0, freq = 0\<rparr>], [\<lparr>valid = 0, tag = 0, recent = 0, freq = 0\<rparr>, \<lparr>valid = 0, tag = 0, recent = 0, freq = 0\<rparr>]],
            \<lparr>miss_count = 1, hit_count = 0, eviction_count = 0\<rparr>, 1, [''miss ''])"
    by code_simp
  from long_run [OF op m] long_run [OF op s] show ?thesis
    by (simp add: incr_def INT_MAX_def)
qed

lemma set_ok_valid_prefix: "set_ok c xs \<Longrightarrow> valid_prefix xs"
  by (simp add: set_ok_def valid_prefix_def)

text \<open>
  Claim C10. From a state that the replay reaches, no further trace lines and no single
  lookup make a valid line invalid, and in every set of such a state, and of the set a
  lookup leaves, the valid lines come first: if line \<open>i\<close> is valid, so is every line below
  \<open>i\<close>. The lookup may write its annotation into a buffer of any size.
\<close>

theorem valid_lines_stay:
  assumes "main_loop r args (fresh (perset args) sets) tr = Some (cache, st, clock, out)"
    and "main_loop r args (cache, st, clock, out) tr' = Some (cache', st', clock', out')"
  shows "keeps_valid cache cache' \<and> (\<forall>xs\<in>set cache. valid_prefix xs) \<and>
         (\<forall>k\<in>{0..<length cache}. \<forall>r' cap tg c pol xs' st1 res.
            surveySet r' cap (cache ! k) st (perset args) tg c pol = Some (xs', st1, res) \<longrightarrow>
            valid_prefix xs' \<and> length xs' = length (cache ! k) \<and>
            (\<forall>i\<in>{0..<length (cache ! k)}. valid (cache ! k ! i) \<noteq> 0 \<longrightarrow> valid (xs' ! i) \<noteq> 0))"
proof -
  have ok: "cache_ok (perset args) (clock + 1) cache" by (rule reach_inv(1) [OF assms(1)])
  have 1: "keeps_valid cache cache'" using main_loop_inv [OF assms(2)] by simp
  have 2: "\<forall>xs\<in>set cache. valid_prefix xs"
    using ok set_ok_valid_prefix by (auto simp: cache_ok_def)
  have 3: "valid_prefix xs' \<and> length xs' = length (cache ! k) \<and>
      (\<forall>i\<in>{0..<length (cache ! k)}. valid (cache ! k ! i) \<noteq> 0 \<longrightarrow> valid (xs' ! i) \<noteq> 0)"
    if k: "k < length cache"
      and s: "surveySet r' cap (cache ! k) st (perset args) tg c pol = Some (xs', st1, res)"
    for k r' cap tg c pol xs' st1 res
  proof -
    from cache_ok_nth [OF ok k]
    have len: "length (cache ! k) = nat (perset args)" and sok: "set_ok (clock + 1) (cache ! k)"
      by simp_all
    have "set_ok (max (clock + 1) c) (cache ! k)" by (rule set_ok_mono [OF sok]) simp
    from surveySet_set_ok [OF s this len] have "valid_prefix xs'"
      using set_ok_valid_prefix by simp
    with surveySet_length [OF s] surveySet_valid [OF s] show ?thesis by simp
  qed
  from 1 2 3 show ?thesis by simp
qed

theorem valid_lines_stay_witness:
  "main_loop Strict cfg (fresh (perset cfg) 2)
     [Access (CHR ''L'') 0] =
   Some ([[\<lparr>valid = 1, tag = 0, recent = 1, freq = 0\<rparr>,
       \<lparr>valid = 0, tag = 0, recent = 0, freq = 0\<rparr>],
      [\<lparr>valid = 0, tag = 0, recent = 0, freq = 0\<rparr>,
       \<lparr>valid = 0, tag = 0, recent = 0, freq = 0\<rparr>]],
     \<lparr>miss_count = 1, hit_count = 0, eviction_count = 0\<rparr>, 1,
     [''miss '']) \<and>
   main_loop Strict cfg
     ([[\<lparr>valid = 1, tag = 0, recent = 1, freq = 0\<rparr>,
       \<lparr>valid = 0, tag = 0, recent = 0, freq = 0\<rparr>],
      [\<lparr>valid = 0, tag = 0, recent = 0, freq = 0\<rparr>,
       \<lparr>valid = 0, tag = 0, recent = 0, freq = 0\<rparr>]],
     \<lparr>miss_count = 1, hit_count = 0, eviction_count = 0\<rparr>, 1, [''miss ''])
     [Access (CHR ''L'') 0x200000000] =
   Some ([[\<lparr>valid = 1, tag = 0, recent = 1, freq = 0\<rparr>,
       \<lparr>valid = 1, tag = 1, recent = 2, freq = 0\<rparr>],
      [\<lparr>valid = 0, tag = 0, recent = 0, freq = 0\<rparr>,
       \<lparr>valid = 0, tag = 0, recent = 0, freq = 0\<rparr>]],
     \<lparr>miss_count = 2, hit_count = 0, eviction_count = 0\<rparr>, 2, [''miss '', ''miss '']) \<and>
   keeps_valid
     [[\<lparr>valid = 1, tag = 0, recent = 1, freq = 0\<rparr>,
       \<lparr>valid = 0, tag = 0, recent = 0, freq = 0\<rparr>],
      [\<lparr>valid = 0, tag = 0, recent = 0, freq = 0\<rparr>,
       \<lparr>valid = 0, tag = 0, recent = 0, freq = 0\<rparr>]]
     [[\<lparr>valid = 1, tag = 0, recent = 1, freq = 0\<rparr>,
       \<lparr>valid = 1, tag = 1, recent = 2, freq = 0\<rparr>],
      [\<lparr>valid = 0, tag = 0, recent = 0, freq = 0\<rparr>,
       \<lparr>valid = 0, tag = 0, recent = 0, freq = 0\<rparr>]]"
proof -
  have h1: "main_loop Strict cfg (fresh (perset cfg) 2)
     [Access (CHR ''L'') 0] =
   Some ([[\<lparr>valid = 1, tag = 0, recent = 1, freq = 0\<rparr>,
       \<lparr>valid = 0, tag = 0, recent = 0, freq = 0\<rparr>],
      [\<lparr>valid = 0, tag = 0, recent = 0, freq = 0\<rparr>,
       \<lparr>valid = 0, tag = 0, recent = 0, freq = 0\<rparr>]],
     \<lparr>miss_count = 1, hit_count = 0, eviction_count = 0\<rparr>, 1,
     [''miss ''])"
    by code_simp
  have h2: "main_loop Strict cfg
     ([[\<lparr>valid = 1, tag = 0, recent = 1, freq = 0\<rparr>,
       \<lparr>valid = 0, tag = 0, recent = 0, freq = 0\<rparr>],
      [\<lparr>valid = 0, tag = 0, recent = 0, freq = 0\<rparr>,
       \<lparr>valid = 0, tag = 0, recent = 0, freq = 0\<rparr>]],
     \<lparr>miss_count = 1, hit_count = 0, eviction_count = 0\<rparr>, 1, [''miss ''])
     [Access (CHR ''L'') 0x200000000] =
   Some ([[\<lparr>valid = 1, tag = 0, recent = 1, freq = 0\<rparr>,
       \<lparr>valid = 1, tag = 1, recent = 2, freq = 0\<rparr>],
      [\<lparr>valid = 0, tag = 0, recent = 0, freq = 0\<rparr>,
       \<lparr>valid = 0, tag = 0, recent = 0, freq = 0\<rparr>]],
     \<lparr>miss_count = 2, hit_count = 0, eviction_count = 0\<rparr>, 2, [''miss '', ''miss ''])"
    by code_simp
  from valid_lines_stay [OF h1 h2] show ?thesis using h1 h2 by blast
qed

text \<open>
  Claim C9. In a state that the replay reaches, let line \<open>j\<close> of a set be invalid and the
  lines below it valid with other tags, so that the lookup meets the empty line before any
  hit. The lookup records a miss and puts \<open>valid = 1\<close>, the tag, \<open>recent = clock\<close> and
  \<open>freq = 0\<close> into line \<open>j\<close>; no other line and no other counter changes. The code does not
  assign \<open>freq\<close> here: it is 0 because an invalid line is still as \<open>buildCache\<close> made it.
  The annotation and its NUL take 6 bytes, the size of the buffer of \<open>cacheSim\<close>.
\<close>

theorem fill_empty_line:
  assumes "main_loop r args (fresh (perset args) sets) tr = Some (cache, st, clock, out)"
    and "k < length cache" and "j < length (cache ! k)"
    and "valid (cache ! k ! j) = 0" and "others tg (cache ! k) 0 j"
    and "miss_count st < INT_MAX" and "5 < cap"
  shows "surveySet r' cap (cache ! k) st (perset args) tg c pol =
         Some ((cache ! k)[j := \<lparr>valid = 1, tag = tg, recent = c, freq = 0\<rparr>],
               st\<lparr>miss_count := miss_count st + 1\<rparr>, ''miss '')"
proof -
  have ok: "cache_ok (perset args) (clock + 1) cache" by (rule reach_inv(1) [OF assms(1)])
  from cache_ok_nth [OF ok assms(2)]
  have len: "length (cache ! k) = nat (perset args)" and sok: "set_ok (clock + 1) (cache ! k)"
    by simp_all
  from set_ok_fresh [OF sok assms(3,4)] have "cache ! k ! j = singleLine" .
  then have "fill_line tg c (cache ! k ! j) = \<lparr>valid = 1, tag = tg, recent = c, freq = 0\<rparr>"
    by (simp add: fill_line_def singleLine_def)
  moreover have "stops tg (perset args) (cache ! k) 0 j"
    using assms(3,5) len by (simp add: stops_def)
  ultimately show ?thesis
    using surveySet_fill [OF _ assms(4) incr_Some [OF assms(6)] assms(7), of tg "perset args" r' c pol]
    by simp
qed

theorem fill_empty_line_witness:
  "main_loop Strict cfg (fresh (perset cfg) 2)
     [Access (CHR ''L'') 0] =
   Some ([[\<lparr>valid = 1, tag = 0, recent = 1, freq = 0\<rparr>,
       \<lparr>valid = 0, tag = 0, recent = 0, freq = 0\<rparr>],
      [\<lparr>valid = 0, tag = 0, recent = 0, freq = 0\<rparr>,
       \<lparr>valid = 0, tag = 0, recent = 0, freq = 0\<rparr>]],
     \<lparr>miss_count = 1, hit_count = 0, eviction_count = 0\<rparr>, 1,
     [''miss '']) \<and>
   (0::nat) < length [[\<lparr>valid = 1, tag = 0, recent = 1, freq = 0\<rparr>,
       \<lparr>valid = 0, tag = 0, recent = 0, freq = 0\<rparr>],
      [\<lparr>valid = 0, tag = 0, recent = 0, freq = 0\<rparr>,
       \<lparr>valid = 0, tag = 0, recent = 0, freq = 0\<rparr>]] \<and>
   (1::nat) < length ([[\<lparr>valid = 1, tag = 0, recent = 1, freq = 0\<rparr>,
       \<lparr>valid = 0, tag = 0, recent = 0, freq = 0\<rparr>],
      [\<lparr>valid = 0, tag = 0, recent = 0, freq = 0\<rparr>,
       \<lparr>valid = 0, tag = 0, recent = 0, freq = 0\<rparr>]] ! 0) \<and>
   valid ([[\<lparr>valid = 1, tag = 0, recent = 1, freq = 0\<rparr>,
       \<lparr>valid = 0, tag = 0, recent = 0, freq = 0\<rparr>],
      [\<lparr>valid = 0, tag = 0, recent = 0, freq = 0\<rparr>,
       \<lparr>valid = 0, tag = 0, recent = 0, freq = 0\<rparr>]] ! 0 ! 1) = 0 \<and>
   others 1 ([[\<lparr>valid = 1, tag = 0, recent = 1, freq = 0\<rparr>,
       \<lparr>valid = 0, tag = 0, recent = 0, freq = 0\<rparr>],
      [\<lparr>valid = 0, tag = 0, recent = 0, freq = 0\<rparr>,
       \<lparr>valid = 0, tag = 0, recent = 0, freq = 0\<rparr>]] ! 0) 0 1 \<and>
   miss_count \<lparr>miss_count = 1, hit_count = 0, eviction_count = 0\<rparr> < INT_MAX \<and>
   (5::nat) < 6 \<and>
   surveySet Strict 6 ([[\<lparr>valid = 1, tag = 0, recent = 1, freq = 0\<rparr>,
       \<lparr>valid = 0, tag = 0, recent = 0, freq = 0\<rparr>],
      [\<lparr>valid = 0, tag = 0, recent = 0, freq = 0\<rparr>,
       \<lparr>valid = 0, tag = 0, recent = 0, freq = 0\<rparr>]] ! 0)
     \<lparr>miss_count = 1, hit_count = 0, eviction_count = 0\<rparr> (perset cfg) 1 2 LRU =
   Some (([[\<lparr>valid = 1, tag = 0, recent = 1, freq = 0\<rparr>,
       \<lparr>valid = 0, tag = 0, recent = 0, freq = 0\<rparr>],
      [\<lparr>valid = 0, tag = 0, recent = 0, freq = 0\<rparr>,
       \<lparr>valid = 0, tag = 0, recent = 0, freq = 0\<rparr>]] ! 0)
           [1 := \<lparr>valid = 1, tag = 1, recent = 2, freq = 0\<rparr>],
         \<lparr>miss_count = 1, hit_count = 0, eviction_count = 0\<rparr>\<lparr>miss_count := miss_count \<lparr>miss_count = 1, hit_count = 0, eviction_count = 0\<rparr> + 1\<rparr>,
         ''miss '')"
proof -
  have h1: "main_loop Strict cfg (fresh (perset cfg) 2)
     [Access (CHR ''L'') 0] =
   Some ([[\<lparr>valid = 1, tag = 0, recent = 1, freq = 0\<rparr>,
       \<lparr>valid = 0, tag = 0, recent = 0, freq = 0\<rparr>],
      [\<lparr>valid = 0, tag = 0, recent = 0, freq = 0\<rparr>,
       \<lparr>valid = 0, tag = 0, recent = 0, freq = 0\<rparr>]],
     \<lparr>miss_count = 1, hit_count = 0, eviction_count = 0\<rparr>, 1,
     [''miss ''])"
    by code_simp
  have h2: "(0::nat) < length [[\<lparr>valid = 1, tag = 0, recent = 1, freq = 0\<rparr>,
       \<lparr>valid = 0, tag = 0, recent = 0, freq = 0\<rparr>],
      [\<lparr>valid = 0, tag = 0, recent = 0, freq = 0\<rparr>,
       \<lparr>valid = 0, tag = 0, recent = 0, freq = 0\<rparr>]]" by simp
  have h3: "(1::nat) < length ([[\<lparr>valid = 1, tag = 0, recent = 1, freq = 0\<rparr>,
       \<lparr>valid = 0, tag = 0, recent = 0, freq = 0\<rparr>],
      [\<lparr>valid = 0, tag = 0, recent = 0, freq = 0\<rparr>,
       \<lparr>valid = 0, tag = 0, recent = 0, freq = 0\<rparr>]] ! 0)" by simp
  have h4: "valid ([[\<lparr>valid = 1, tag = 0, recent = 1, freq = 0\<rparr>,
       \<lparr>valid = 0, tag = 0, recent = 0, freq = 0\<rparr>],
      [\<lparr>valid = 0, tag = 0, recent = 0, freq = 0\<rparr>,
       \<lparr>valid = 0, tag = 0, recent = 0, freq = 0\<rparr>]] ! 0 ! 1) = 0" by simp
  have h5: "others 1 ([[\<lparr>valid = 1, tag = 0, recent = 1, freq = 0\<rparr>,
       \<lparr>valid = 0, tag = 0, recent = 0, freq = 0\<rparr>],
      [\<lparr>valid = 0, tag = 0, recent = 0, freq = 0\<rparr>,
       \<lparr>valid = 0, tag = 0, recent = 0, freq = 0\<rparr>]] ! 0) 0 1" by code_simp
  have h6: "miss_count \<lparr>miss_count = 1, hit_count = 0, eviction_count = 0\<rparr> < INT_MAX" by code_simp
  have h7: "(5::nat) < 6" by simp
  from fill_empty_line [OF h1 h2 h3 h4 h5 h6 h7, of Strict 2 LRU] show ?thesis
    using h1 h2 h3 h4 h5 h6 h7 by blast
qed

section \<open>Evictions\<close>

text \<open>
  A lookup in a set whose lines are all valid and hold other tags ends in the eviction
  block, which copies \<open>"evict "\<close>, 7 bytes with the NUL, into the 6 bytes of \<open>result\<close>:
  through \<open>cacheSim\<close> every such lookup is undefined, whatever the policy, the counters
  and the reading.
\<close>

lemma eviction_overflows:
  assumes "others tg (cache ! nat (sint setNumber)) 0 (nat lines)"
    and "lines \<le> int (length (cache ! nat (sint setNumber)))" and "1 \<le> lines"
  shows "cacheSim r cache st tg setNumber lines clock operation pol = None"
proof -
  from surveySet_evict [OF assms, of r 6 clock st pol]
  have "surveySet r 6 (cache ! nat (sint setNumber)) st lines tg clock pol = None"
    by (elim exE conjE) (simp split: option.splits)
  then show ?thesis by (simp add: cacheSim_def Let_def)
qed

text \<open>
  With room for the annotation the eviction overwrites the tag, \<open>recent\<close> and \<open>freq\<close> of
  one line of the set and adds one miss and one eviction.
\<close>

lemma eviction_with_room:
  assumes "others tg xs 0 (nat lines)" and "lines \<le> int (length xs)" and "1 \<le> lines"
    and "miss_count st < INT_MAX" and "eviction_count st < INT_MAX" and "6 < cap"
  shows "\<exists>v<nat lines.
           surveySet r cap xs st lines tg clock pol =
           Some (xs[v := (xs ! v)\<lparr>recent := clock, tag := tg, freq := 0\<rparr>],
                 st\<lparr>miss_count := miss_count st + 1, eviction_count := eviction_count st + 1\<rparr>,
                 ''evict '')"
proof -
  from surveySet_evict [OF assms(1-3), of r cap clock st pol] obtain sv where
    "finalIndex pol sv < nat lines"
    "surveySet r cap xs st lines tg clock pol =
       Some (xs[finalIndex pol sv := evict_line tg clock (xs ! finalIndex pol sv)],
             st\<lparr>miss_count := miss_count st + 1, eviction_count := eviction_count st + 1\<rparr>,
             ''evict '')"
    using assms(4-6) by (auto simp: incr_Some)
  then show ?thesis by (auto simp: evict_line_def)
qed

text \<open>
  Under LRU, in a state that the replay reaches and at the clock \<open>main\<close> passes next or
  a later one, the line that an eviction overwrites is valid, its \<open>recent\<close> is the
  smallest of the set and smaller than that of every line below it.
\<close>

lemma lru_first_least_recent:
  assumes "main_loop r args (fresh (perset args) sets) tr = Some (cache, st, clock, out)"
    and "k < length cache" and "clock + 1 \<le> c"
    and "surveySet r' cap (cache ! k) st (perset args) tg c LRU = Some (xs', st', ''evict '')"
  shows "\<exists>v. v < length (cache ! k) \<and> valid (cache ! k ! v) \<noteq> 0 \<and>
           (\<forall>j\<in>{0..<length (cache ! k)}. recent (cache ! k ! v) \<le> recent (cache ! k ! j)) \<and>
           (\<forall>j\<in>{0..<v}. recent (cache ! k ! v) < recent (cache ! k ! j)) \<and>
           xs' = (cache ! k)[v := (cache ! k ! v)\<lparr>recent := c, tag := tg, freq := 0\<rparr>]"
proof -
  let ?xs = "cache ! k"
  have ok: "cache_ok (perset args) (clock + 1) cache" by (rule reach_inv(1) [OF assms(1)])
  from cache_ok_nth [OF ok assms(2)]
  have len: "length ?xs = nat (perset args)" and sok: "set_ok (clock + 1) ?xs"
    by simp_all
  have rec: "recent (?xs ! j) \<le> c" if "j < length ?xs" for j
    using set_ok_recent [OF sok that] assms(3) by simp
  from assms(4) show ?thesis
  proof (cases rule: surveySet_cases)
    case (evict sv m e)
    let ?v = "minLRUIndex sv"
    have fi: "finalIndex LRU sv = ?v" by (simp add: finalIndex_def)
    from evict(5) fi have v: "?v < length ?xs" by simp
    with evict(3) len have valid: "valid (?xs ! ?v) \<noteq> 0" by (simp add: others_def)
    from loop_lru [OF evict(1,2)] have inv: "lru_inv c ?xs (length ?xs) sv" by (simp add: len)
    have least: "recent (?xs ! ?v) \<le> recent (?xs ! j)" if "j < length ?xs" for j
    proof (cases "\<exists>j<length ?xs. recent (?xs ! j) < c")
      case True
      with inv that show ?thesis by (auto simp: lru_inv_def)
    next
      case False
      then have "\<not> recent (?xs ! j) < c" using that by blast
      with rec [OF v] show ?thesis by simp
    qed
    have first: "recent (?xs ! ?v) < recent (?xs ! j)" if "j < ?v" for j
    proof (cases "\<exists>j<length ?xs. recent (?xs ! j) < c")
      case True
      with inv that show ?thesis by (auto simp: lru_inv_def)
    next
      case False
      with inv have "?v = 0" by (simp add: lru_inv_def)
      with that show ?thesis by simp
    qed
    from v valid least first evict(10) fi show ?thesis
      by (intro exI [of _ ?v]) (simp add: evict_line_def)
  qed simp_all
qed
text \<open>
  Whatever the first lookup of an \<open>M\<close> did, the second hits; within the buffer of
  \<open>cacheSim\<close> the first is a hit or a fill, and the operation counts no eviction.
\<close>

lemma modify_second_lookup:
  assumes "cacheSim r cache st tg setNumber lines clock (CHR ''M'') pol = Some (cache', st', rs)"
    and "1 \<le> lines"
  shows "(\<exists>r1. rs = [r1, ''hit ''] \<and> (r1 = ''hit '' \<or> r1 = ''miss '')) \<and>
         eviction_count st' = eviction_count st"
  using assms(1)
proof (cases rule: cacheSim_cases)
  case (modify set1 st1 r1 set2 r2)
  from second_lookup_hits [OF modify(4) assms(2)] modify(5) have "r2 = ''hit ''"
    by (auto split: option.splits)
  with surveySet_6 [OF modify(4)] surveySet_6 [OF modify(5)] modify(7)
  show ?thesis by simp
qed simp

text \<open>Every set of a state that the replay reaches has \<open>perset\<close> lines.\<close>

lemma sets_hold_perset_lines:
  assumes "main_loop r args (fresh (perset args) sets) tr = Some (cache, st, clock, out)"
    and "xs \<in> set cache"
  shows "length xs = nat (perset args)"
    and "length (filter (\<lambda>l. valid l \<noteq> 0) xs) \<le> nat (perset args)"
proof -
  from reach_inv(1) [OF assms(1)] assms(2) show len: "length xs = nat (perset args)"
    by (simp add: cache_ok_def)
  have "length (filter (\<lambda>l. valid l \<noteq> 0) xs) \<le> length xs" by (rule length_filter_le)
  with len show "length (filter (\<lambda>l. valid l \<noteq> 0) xs) \<le> nat (perset args)" by simp
qed

text \<open>
  Tags \<open>a\<close>, \<open>b\<close>, \<open>a\<close>, \<open>c\<close> in a fresh set of two lines under LRU, at the clocks 1 to 4 and
  with a buffer of 7 bytes: miss, miss, hit, and the eviction of the line that holds \<open>b\<close>.
\<close>

lemma lru_a_b_a_c:
  assumes "a \<noteq> b" "c \<noteq> a" "c \<noteq> b"
  shows "surveySet r 7 [singleLine, singleLine]
           \<lparr>miss_count = 0, hit_count = 0, eviction_count = 0\<rparr> 2 a 1 LRU =
         Some ([\<lparr>valid = 1, tag = a, recent = 1, freq = 0\<rparr>, singleLine],
               \<lparr>miss_count = 1, hit_count = 0, eviction_count = 0\<rparr>, ''miss '')"
    and "surveySet r 7 [\<lparr>valid = 1, tag = a, recent = 1, freq = 0\<rparr>, singleLine]
           \<lparr>miss_count = 1, hit_count = 0, eviction_count = 0\<rparr> 2 b 2 LRU =
         Some ([\<lparr>valid = 1, tag = a, recent = 1, freq = 0\<rparr>,
                \<lparr>valid = 1, tag = b, recent = 2, freq = 0\<rparr>],
               \<lparr>miss_count = 2, hit_count = 0, eviction_count = 0\<rparr>, ''miss '')"
    and "surveySet r 7 [\<lparr>valid = 1, tag = a, recent = 1, freq = 0\<rparr>,
                        \<lparr>valid = 1, tag = b, recent = 2, freq = 0\<rparr>]
           \<lparr>miss_count = 2, hit_count = 0, eviction_count = 0\<rparr> 2 a 3 LRU =
         Some ([\<lparr>valid = 1, tag = a, recent = 3, freq = 1\<rparr>,
                \<lparr>valid = 1, tag = b, recent = 2, freq = 0\<rparr>],
               \<lparr>miss_count = 2, hit_count = 1, eviction_count = 0\<rparr>, ''hit '')"
    and "surveySet r 7 [\<lparr>valid = 1, tag = a, recent = 3, freq = 1\<rparr>,
                        \<lparr>valid = 1, tag = b, recent = 2, freq = 0\<rparr>]
           \<lparr>miss_count = 2, hit_count = 1, eviction_count = 0\<rparr> 2 c 4 LRU =
         Some ([\<lparr>valid = 1, tag = a, recent = 3, freq = 1\<rparr>,
                \<lparr>valid = 1, tag = c, recent = 4, freq = 0\<rparr>],
               \<lparr>miss_count = 3, hit_count = 1, eviction_count = 1\<rparr>, ''evict '')"
  using assms
  by (simp_all add: surveySet_def init_survey_def finalIndex_def LRU_def LFU_def
      survey_loop.simps [of _ _ _ _ _ _ 0] survey_loop.simps [of _ _ _ _ _ _ "Suc 0"]
      survey_loop.simps [of _ _ _ _ _ _ "Suc (Suc 0)"]
      singleLine_def sameTag_def incr_def strcpy_def INT_MAX_def hit_line_def fill_line_def
      evict_line_def track_def Let_def)

text \<open>
  Claim C6 fails on the code. Two lines per set, the loads of \<open>0x0\<close> and \<open>0x200000000\<close>
  (tags 0 and 1 of set 0) fill set 0. The load of \<open>0x400000000\<close> (tag 2) finds the set
  full: \<open>surveySet\<close> overwrites line 0, counts the miss and the eviction and then copies 7
  bytes into the 6 bytes of \<open>result\<close>, so the replay is undefined. With 7 bytes the same
  lookup is the one eviction of the claim.
\<close>

theorem full_set_lookup_overflows:
  "main_loop Strict cfg (fresh 2 2)
     [Access (CHR ''L'') 0, Access (CHR ''L'') 0x200000000] =
   Some ([[\<lparr>valid = 1, tag = 0, recent = 1, freq = 0\<rparr>,
           \<lparr>valid = 1, tag = 1, recent = 2, freq = 0\<rparr>],
          [\<lparr>valid = 0, tag = 0, recent = 0, freq = 0\<rparr>,
           \<lparr>valid = 0, tag = 0, recent = 0, freq = 0\<rparr>]],
         \<lparr>miss_count = 2, hit_count = 0, eviction_count = 0\<rparr>, 2, [''miss '', ''miss '']) \<and>
   main_loop Strict cfg (fresh 2 2)
     [Access (CHR ''L'') 0, Access (CHR ''L'') 0x200000000, Access (CHR ''L'') 0x400000000] = None \<and>
   main_loop Masked cfg (fresh 2 2)
     [Access (CHR ''L'') 0, Access (CHR ''L'') 0x200000000, Access (CHR ''L'') 0x400000000] = None \<and>
   cacheSim Masked
     [[\<lparr>valid = 1, tag = 0, recent = 1, freq = 0\<rparr>,
       \<lparr>valid = 1, tag = 1, recent = 2, freq = 0\<rparr>],
      [\<lparr>valid = 0, tag = 0, recent = 0, freq = 0\<rparr>,
       \<lparr>valid = 0, tag = 0, recent = 0, freq = 0\<rparr>]]
     \<lparr>miss_count = 2, hit_count = 0, eviction_count = 0\<rparr> 2 0 2 3 (CHR ''L'') LRU = None \<and>
   strcpy 6 ''evict '' = None \<and>
   surveySet Masked 7
     [\<lparr>valid = 1, tag = 0, recent = 1, freq = 0\<rparr>,
      \<lparr>valid = 1, tag = 1, recent = 2, freq = 0\<rparr>]
     \<lparr>miss_count = 2, hit_count = 0, eviction_count = 0\<rparr> 2 2 3 LRU =
   Some ([\<lparr>valid = 1, tag = 2, recent = 3, freq = 0\<rparr>,
          \<lparr>valid = 1, tag = 1, recent = 2, freq = 0\<rparr>],
         \<lparr>miss_count = 3, hit_count = 0, eviction_count = 1\<rparr>, ''evict '')"
  by code_simp

text \<open>
  Claim C3 fails on the code. After the stores to \<open>0x0\<close> and \<open>0x200000000\<close> have filled set
  0, the \<open>M\<close> of \<open>0x400000000\<close> evicts in its first lookup, which overflows \<open>result\<close>: the
  operation is undefined and its second lookup has no result. With 7 bytes the first
  lookup is an eviction and the second, at the next clock, a hit.
\<close>

theorem modify_eviction_overflows:
  "main_loop Strict cfg (fresh 2 2)
     [Access (CHR ''S'') 0, Access (CHR ''S'') 0x200000000] =
   Some ([[\<lparr>valid = 1, tag = 0, recent = 1, freq = 0\<rparr>,
           \<lparr>valid = 1, tag = 1, recent = 2, freq = 0\<rparr>],
          [\<lparr>valid = 0, tag = 0, recent = 0, freq = 0\<rparr>,
           \<lparr>valid = 0, tag = 0, recent = 0, freq = 0\<rparr>]],
         \<lparr>miss_count = 2, hit_count = 0, eviction_count = 0\<rparr>, 2, [''miss '', ''miss '']) \<and>
   main_loop Strict cfg (fresh 2 2)
     [Access (CHR ''S'') 0, Access (CHR ''S'') 0x200000000, Access (CHR ''M'') 0x400000000] = None \<and>
   main_loop Masked cfg (fresh 2 2)
     [Access (CHR ''S'') 0, Access (CHR ''S'') 0x200000000, Access (CHR ''M'') 0x400000000] = None \<and>
   cacheSim Strict
     [[\<lparr>valid = 1, tag = 0, recent = 1, freq = 0\<rparr>,
       \<lparr>valid = 1, tag = 1, recent = 2, freq = 0\<rparr>],
      [\<lparr>valid = 0, tag = 0, recent = 0, freq = 0\<rparr>,
       \<lparr>valid = 0, tag = 0, recent = 0, freq = 0\<rparr>]]
     \<lparr>miss_count = 2, hit_count = 0, eviction_count = 0\<rparr> 2 0 2 3 (CHR ''M'') LRU = None \<and>
   surveySet Strict 7
     [\<lparr>valid = 1, tag = 0, recent = 1, freq = 0\<rparr>,
      \<lparr>valid = 1, tag = 1, recent = 2, freq = 0\<rparr>]
     \<lparr>miss_count = 2, hit_count = 0, eviction_count = 0\<rparr> 2 2 3 LRU =
   Some ([\<lparr>valid = 1, tag = 2, recent = 3, freq = 0\<rparr>,
          \<lparr>valid = 1, tag = 1, recent = 2, freq = 0\<rparr>],
         \<lparr>miss_count = 3, hit_count = 0, eviction_count = 1\<rparr>, ''evict '') \<and>
   surveySet Strict 7
     [\<lparr>valid = 1, tag = 2, recent = 3, freq = 0\<rparr>,
      \<lparr>valid = 1, tag = 1, recent = 2, freq = 0\<rparr>]
     \<lparr>miss_count = 3, hit_count = 0, eviction_count = 1\<rparr> 2 2 4 LRU =
   Some ([\<lparr>valid = 1, tag = 2, recent = 4, freq = 1\<rparr>,
          \<lparr>valid = 1, tag = 1, recent = 2, freq = 0\<rparr>],
         \<lparr>miss_count = 3, hit_count = 1, eviction_count = 1\<rparr>, ''hit '')"
  by code_simp

text \<open>
  Claim C8 fails on the code. The example of the claim, with the tags 0, 1, 0, 2 of set 0
  for A, B, A, C: the first three accesses are miss, miss, hit, and the access to C is an
  eviction, which overflows \<open>result\<close>, so the replay is undefined. With 7 bytes the lookup
  of C overwrites line 1, which holds B, the line of least \<open>recent\<close>.
\<close>

theorem lru_example_overflows:
  "main_loop Strict cfg (fresh 2 2)
     [Access (CHR ''L'') 0, Access (CHR ''L'') 0x200000000, Access (CHR ''L'') 0] =
   Some ([[\<lparr>valid = 1, tag = 0, recent = 3, freq = 1\<rparr>,
           \<lparr>valid = 1, tag = 1, recent = 2, freq = 0\<rparr>],
          [\<lparr>valid = 0, tag = 0, recent = 0, freq = 0\<rparr>,
           \<lparr>valid = 0, tag = 0, recent = 0, freq = 0\<rparr>]],
         \<lparr>miss_count = 2, hit_count = 1, eviction_count = 0\<rparr>, 3, [''miss '', ''miss '', ''hit '']) \<and>
   main_loop Strict cfg (fresh 2 2)
     [Access (CHR ''L'') 0, Access (CHR ''L'') 0x200000000, Access (CHR ''L'') 0, Access (CHR ''L'') 0x400000000] = None \<and>
   main_loop Masked cfg (fresh 2 2)
     [Access (CHR ''L'') 0, Access (CHR ''L'') 0x200000000, Access (CHR ''L'') 0, Access (CHR ''L'') 0x400000000] = None \<and>
   surveySet Strict 6
     [\<lparr>valid = 1, tag = 0, recent = 3, freq = 1\<rparr>,
      \<lparr>valid = 1, tag = 1, recent = 2, freq = 0\<rparr>]
     \<lparr>miss_count = 2, hit_count = 1, eviction_count = 0\<rparr> 2 2 4 LRU = None \<and>
   surveySet Strict 7
     [\<lparr>valid = 1, tag = 0, recent = 3, freq = 1\<rparr>,
      \<lparr>valid = 1, tag = 1, recent = 2, freq = 0\<rparr>]
     \<lparr>miss_count = 2, hit_count = 1, eviction_count = 0\<rparr> 2 2 4 LRU =
   Some ([\<lparr>valid = 1, tag = 0, recent = 3, freq = 1\<rparr>,
          \<lparr>valid = 1, tag = 2, recent = 4, freq = 0\<rparr>],
         \<lparr>miss_count = 3, hit_count = 1, eviction_count = 1\<rparr>, ''evict '')"
  by code_simp

section \<open>Address decoding\<close>

text \<open>
  Where the shifts are within the width of their operands, under either reading: the set
  index is that of the specification for \<open>sbits \<le> 31\<close>, the tag for
  \<open>33 \<le> sbits + bbits \<le> 63\<close>.
\<close>

lemma not_shl_mask32: "NOT (push_bit n (NOT 0 :: 32 word)) = mask n"
  by (rule bit_word_eqI) (auto simp: bit_simps)

lemma scast_mask32: "n < 32 \<Longrightarrow> (scast (mask n :: 32 word) :: 64 word) = mask n"
  by (rule bit_word_eqI) (auto simp: bit_simps min_def)

lemma sar_mask: "n + m \<le> 64 \<Longrightarrow> signed_drop_bit m (a :: 64 word) AND mask n = drop_bit m a AND mask n"
  by (rule bit_word_eqI) (auto simp: bit_simps)

lemma findSet_spec:
  assumes "0 \<le> s" "s < 32" "0 \<le> b" "b < 64" "s + b \<le> 64"
  shows "findSet r address s b = Some (set_index_spec address (nat s) (nat b))"
  using assms
  by (simp add: findSet_def shl_int_def sar_long_def set_index_spec_def not_shl_mask32
      scast_mask32 sar_mask)

lemma findTag_spec:
  assumes "0 \<le> s" "0 \<le> b" "33 \<le> s + b" "s + b \<le> 63"
  shows "findTag r address s b = Some (tag_spec address (nat s) (nat b))"
proof -
  define t where "t = nat (64 - s - b)"
  define n where "n = nat (s + b)"
  have t: "t < 32" "t + n \<le> 64" "64 - n = t" "nat s + nat b = n"
    using assms unfolding t_def n_def by linarith+
  have "findTag r address s b = Some (signed_drop_bit n address AND scast (NOT (push_bit t (NOT 0 :: 32 word))))"
    using assms by (simp add: findTag_def shl_int_def sar_long_def t_def n_def)
  also have "signed_drop_bit n address AND scast (NOT (push_bit t (NOT 0 :: 32 word))) =
      drop_bit n address AND mask t"
    using t(1,2) by (simp add: not_shl_mask32 scast_mask32 sar_mask)
  finally show ?thesis by (simp add: tag_spec_def t(3,4))
qed

lemma set_index_spec_less: "s < 64 \<Longrightarrow> set_index_spec address s b < 2 ^ s"
  by (simp add: set_index_spec_def and_mask_less')


section \<open>Where the code departs from its description\<close>

text \<open>
  Claim C1 fails on the code. Two lines per set, LFU, the tags 0, 1, 1, 0 in set 0: both
  lines then have \<open>freq = 1\<close>, line 0 was used at clock 4 and line 1 at clock 3. The
  lookup of tag 2 at clock 5, here with 7 bytes for its annotation, evicts line 0, the more recently used of the two. The tie
  branch of \<open>track\<close> compares \<open>recent\<close> with a \<open>minLRU\<close> that the same iteration has already
  lowered to this \<open>recent\<close>, so it never fires and the first line of least \<open>freq\<close> stays
  the victim.
\<close>

theorem lfu_tie_evicts_first_line:
  "main_loop Strict (cfg\<lparr>policy := LFU\<rparr>) (fresh 2 2)
     [Access (CHR ''L'') 0, Access (CHR ''L'') 0x200000000, Access (CHR ''L'') 0x200000000,
      Access (CHR ''L'') 0] =
   Some ([[\<lparr>valid = 1, tag = 0, recent = 4, freq = 1\<rparr>,
           \<lparr>valid = 1, tag = 1, recent = 3, freq = 1\<rparr>],
          [\<lparr>valid = 0, tag = 0, recent = 0, freq = 0\<rparr>,
           \<lparr>valid = 0, tag = 0, recent = 0, freq = 0\<rparr>]],
         \<lparr>miss_count = 2, hit_count = 2, eviction_count = 0\<rparr>, 4,
         [''miss '', ''miss '', ''hit '', ''hit '']) \<and>
   surveySet Strict 7 [\<lparr>valid = 1, tag = 0, recent = 4, freq = 1\<rparr>,
                       \<lparr>valid = 1, tag = 1, recent = 3, freq = 1\<rparr>]
     \<lparr>miss_count = 2, hit_count = 2, eviction_count = 0\<rparr> 2 2 5 LFU =
   Some ([\<lparr>valid = 1, tag = 2, recent = 5, freq = 0\<rparr>,
          \<lparr>valid = 1, tag = 1, recent = 3, freq = 1\<rparr>],
         \<lparr>miss_count = 3, hit_count = 2, eviction_count = 1\<rparr>, ''evict '')"
  by code_simp

text \<open>
  Claim C2 fails on the code. With \<open>sbits = 0\<close> and \<open>bbits = 0\<close>, \<open>findTag\<close> shifts the \<open>int\<close>
  \<open>~0\<close> by 64: the replay of the addresses \<open>0x0\<close>, \<open>0x10\<close>, \<open>0x0\<close> is undefined, and where
  the count is taken modulo 32 every tag is 0, so the outcomes are miss, hit, hit with the
  counters 2 hits, 1 miss, 0 evictions.
\<close>

theorem single_line_replay:
  "main Strict \<lparr>sbits = 0, perset = 1, bbits = 0, policy = LRU\<rparr>
     [Access (CHR ''L'') 0x0, Access (CHR ''L'') 0x10, Access (CHR ''L'') 0x0] = None \<and>
   main Masked \<lparr>sbits = 0, perset = 1, bbits = 0, policy = LRU\<rparr>
     [Access (CHR ''L'') 0x0, Access (CHR ''L'') 0x10, Access (CHR ''L'') 0x0] =
   Some (\<lparr>miss_count = 1, hit_count = 2, eviction_count = 0\<rparr>, [''miss '', ''hit '', ''hit '']) \<and>
   findTag Strict 0x10 0 0 = None \<and> findTag Masked 0x10 0 0 = Some 0 \<and>
   tag_spec 0x10 0 0 = 0x10"
  by code_simp

text \<open>
  The same three lookups with the tags \<open>0x0\<close>, \<open>0x10\<close>, \<open>0x0\<close> handed to \<open>surveySet\<close>
  directly, with 7 bytes for the annotation: miss, eviction, eviction.
\<close>

lemma single_line_tags:
  "(case surveySet Strict 7 [singleLine] \<lparr>miss_count = 0, hit_count = 0, eviction_count = 0\<rparr>
          1 0x0 1 LRU of
      None \<Rightarrow> None
    | Some (c1, s1, r1) \<Rightarrow>
        (case surveySet Strict 7 c1 s1 1 0x10 2 LRU of
           None \<Rightarrow> None
         | Some (c2, s2, r2) \<Rightarrow>
             (case surveySet Strict 7 c2 s2 1 0x0 3 LRU of
                None \<Rightarrow> None
              | Some (c3, s3, r3) \<Rightarrow> Some (s3, [r1, r2, r3])))) =
   Some (\<lparr>miss_count = 3, hit_count = 0, eviction_count = 2\<rparr>, [''miss '', ''evict '', ''evict ''])"
  by code_simp

text \<open>
  Claim C7 fails on the code for the tag. With \<open>sbits = 4\<close> and \<open>bbits = 4\<close> the tag has 56
  bits, and \<open>findTag\<close> shifts the \<open>int\<close> \<open>~0\<close> by 56: undefined, and a mask of 24 bits where
  the count is taken modulo 32, which drops bit 32 of the address \<open>0x100000000\<close>.
\<close>

theorem findTag_wide_tag:
  "findTag Strict 0x100000000 4 4 = None \<and>
   findTag Masked 0x100000000 4 4 = Some 0 \<and>
   tag_spec 0x100000000 4 4 = 0x1000000"
  by code_simp


end
